theory Spec2Isabelle
  imports Main
begin

section \<open>Exceptions and values\<close>

text \<open>
  The module \<^verbatim>\<open>m/__init__.py\<close> is a small routing layer on top of webob.  Every
  Python exception the module itself raises, or that the library calls it makes can
  raise, is a value of \<open>exn\<close>; a Python procedure that can raise returns \<open>exn + 'a\<close>
  with \<open>Inl\<close> for the raised exception.  The module subscripts dicts in two places,
  \<^verbatim>\<open>PATTERNS[type]\<close> and \<^verbatim>\<open>CASTS[type]\<close> in \<^verbatim>\<open>Router._spec_parse\<close> and
  \<^verbatim>\<open>route.casts[k]\<close> in \<^verbatim>\<open>Router.match\<close>; a \<^verbatim>\<open>KeyError\<close> records, beside the
  key, which of the two raised it.

  Strings are lists of \<open>char\<close>; a \<open>char\<close> stands for the code point of the same
  number, so the model covers Python strings over the code points 0 to 255.
\<close>

datatype table =
    TypeRegistry            \<comment> \<open>the module's dicts \<^verbatim>\<open>PATTERNS\<close> and \<^verbatim>\<open>CASTS\<close>, read in \<^verbatim>\<open>_spec_parse\<close>\<close>
  | RouteCasts              \<comment> \<open>the dict \<^verbatim>\<open>route.casts\<close> of a route, read in \<^verbatim>\<open>match\<close>\<close>

datatype exn =
    ErrorPattern            \<comment> \<open>\<^verbatim>\<open>Exception('error pattern')\<close>: the spec's MalformedRouteRule\<close>
  | KeyError table string   \<comment> \<open>\<^verbatim>\<open>KeyError(key)\<close> with the dict the key is missing from; from \<^verbatim>\<open>PATTERNS[type]\<close> the spec's UnknownParameterType\<close>
  | IndexError
  | NotAFilter              \<comment> \<open>\<^verbatim>\<open>Exception('{} is not a Filter'.format(fl))\<close>: the spec's InvalidFilter\<close>
  | HTTPNotFound string     \<comment> \<open>\<^verbatim>\<open>webob.exc.HTTPNotFound(detail=...)\<close>\<close>
  | AttributeError string
  | ValueError
  | ReError                 \<comment> \<open>\<^verbatim>\<open>re.error\<close>, raised by \<^verbatim>\<open>re.compile\<close>\<close>
  | Unmodelled              \<comment> \<open>regular-expression syntax outside the fragment modelled below\<close>
  | UserError string        \<comment> \<open>anything raised by user-supplied handlers and hooks\<close>

datatype pyval =
    VStr string
  | VInt int
  | VFloat string           \<comment> \<open>the float that \<^verbatim>\<open>float()\<close> reads from this text; rounding is not modelled\<close>

section \<open>Type registry\<close>

definition bslash :: char where
  "bslash = CHR 0x5C"

definition PATTERNS :: "string \<rightharpoonup> string" where
  "PATTERNS = [
     ''str'' \<mapsto> ''[^/].+'',
     ''word'' \<mapsto> [bslash, CHR ''w'', CHR ''+''],
     ''any'' \<mapsto> ''.+'',
     ''int'' \<mapsto> ''[+-]?'' @ [bslash, CHR ''d'', CHR ''+''],
     ''float'' \<mapsto> ''[+-]?'' @ [bslash, CHR ''d'', CHR ''+'', bslash, CHR ''.'', bslash, CHR ''d'', CHR ''+'']]"

datatype cast = Cast_str | Cast_int | Cast_float

definition CASTS :: "string \<rightharpoonup> cast" where
  "CASTS = [
     ''str'' \<mapsto> Cast_str,
     ''word'' \<mapsto> Cast_str,
     ''any'' \<mapsto> Cast_str,
     ''int'' \<mapsto> Cast_int,
     ''float'' \<mapsto> Cast_float]"

definition is_digit :: "char \<Rightarrow> bool" where
  "is_digit c = (let n = (of_char c :: nat) in 48 \<le> n \<and> n \<le> 57)"

definition digit_val :: "char \<Rightarrow> int" where
  "digit_val c = int (of_char c) - 48"

definition digits_val :: "string \<Rightarrow> int" where
  "digits_val ds = foldl (\<lambda>a c. 10 * a + digit_val c) 0 ds"

text \<open>
  \<^verbatim>\<open>int(v)\<close> on an optional sign followed by decimal digits, which is all that the
  \<^verbatim>\<open>int\<close> pattern lets through.  Python accepts more (surrounding blanks, underscores
  between digits) and recent interpreters refuse more than 4300 digits; neither is
  modelled, other texts are a \<open>ValueError\<close> here.
\<close>

definition py_int :: "string \<Rightarrow> exn + pyval" where
  "py_int s =
     (let (neg, ds) = (case s of
                         c # cs \<Rightarrow> if c = CHR ''-'' then (True, cs)
                                   else if c = CHR ''+'' then (False, cs) else (False, s)
                       | [] \<Rightarrow> (False, s))
      in if ds \<noteq> [] \<and> list_all is_digit ds
         then Inr (VInt (if neg then - digits_val ds else digits_val ds))
         else Inl ValueError)"

text \<open>
  \<^verbatim>\<open>float(v)\<close> on an optional sign, digits, a point and digits (the \<^verbatim>\<open>float\<close>
  pattern); the result keeps the text.
\<close>

definition py_float :: "string \<Rightarrow> exn + pyval" where
  "py_float s =
     (let ds = (case s of
                  c # cs \<Rightarrow> if c = CHR ''-'' \<or> c = CHR ''+'' then cs else s
                | [] \<Rightarrow> s);
          ip = takeWhile is_digit ds;
          rest = dropWhile is_digit ds
      in case rest of
           c # fp \<Rightarrow> if c = CHR ''.'' \<and> ip \<noteq> [] \<and> fp \<noteq> [] \<and> list_all is_digit fp
                     then Inr (VFloat s) else Inl ValueError
         | [] \<Rightarrow> Inl ValueError)"

fun apply_cast :: "cast \<Rightarrow> string \<Rightarrow> exn + pyval" where
  "apply_cast Cast_str v = Inr (VStr v)"
| "apply_cast Cast_int v = py_int v"
| "apply_cast Cast_float v = py_float v"

section \<open>Route rule compiler\<close>

text \<open>\<^verbatim>\<open>src.split(sep)\<close> for a one-character separator: always at least one piece.\<close>

fun split_sep :: "char \<Rightarrow> string \<Rightarrow> string list" where
  "split_sep sep [] = [[]]"
| "split_sep sep (c # cs) =
     (if c = sep then [] # split_sep sep cs
      else (case split_sep sep cs of
              p # ps \<Rightarrow> (c # p) # ps
            | [] \<Rightarrow> [[c]]))"

text \<open>
  \<^verbatim>\<open>Router._spec_parse\<close>: name, named-group text and cast of one parameter
  specification.
\<close>

definition spec_parse :: "string \<Rightarrow> exn + (string \<times> string \<times> cast)" where
  "spec_parse src =
     (let tmp = split_sep CHR '':'' src in
      if length tmp > 2 then Inl ErrorPattern
      else (case tmp of
              [] \<Rightarrow> Inl IndexError
            | name # more \<Rightarrow>
               (let type = (case more of [t] \<Rightarrow> t | _ \<Rightarrow> ''str'') in
                case PATTERNS type of
                  None \<Rightarrow> Inl (KeyError TypeRegistry type)
                | Some frag \<Rightarrow>
                   (case CASTS type of
                      None \<Rightarrow> Inl (KeyError TypeRegistry type)
                    | Some c \<Rightarrow> Inr (name, ''(?P<'' @ name @ ''>'' @ frag @ '')'', c)))))"

text \<open>
  The loop of \<^verbatim>\<open>Router._rule_parse\<close> over the characters of the rule, with its four
  local variables; at the end the pieces are joined and \<^verbatim>\<open>$\<close> is appended.
\<close>

fun rule_loop ::
  "string \<Rightarrow> string list \<Rightarrow> string \<Rightarrow> (string \<rightharpoonup> cast) \<Rightarrow> bool
     \<Rightarrow> exn + (string \<times> (string \<rightharpoonup> cast))" where
  "rule_loop [] pattern spec casts is_spec = Inr (concat pattern @ ''$'', casts)"
| "rule_loop (c # cs) pattern spec casts is_spec =
     (if c = CHR ''{'' \<and> \<not> is_spec then rule_loop cs pattern spec casts True
      else if c = CHR ''}'' \<and> is_spec then
        (case spec_parse spec of
           Inl e \<Rightarrow> Inl e
         | Inr (name, p, cst) \<Rightarrow> rule_loop cs (pattern @ [p]) [] (casts(name \<mapsto> cst)) False)
      else if is_spec then rule_loop cs pattern (spec @ [c]) casts is_spec
      else rule_loop cs (pattern @ [[c]]) spec casts is_spec)"

definition rule_parse :: "string \<Rightarrow> exn + (string \<times> (string \<rightharpoonup> cast))" where
  "rule_parse rule = rule_loop rule [] [] Map.empty False"

section \<open>Regular expressions: the fragment of Python's \<^verbatim>\<open>re\<close> that rules compile to\<close>

text \<open>
  \<^verbatim>\<open>re.compile\<close> and \<^verbatim>\<open>Pattern.match\<close> belong to Python's library.  They are
  modelled for the pattern language that \<^verbatim>\<open>_rule_parse\<close> emits: single characters,
  \<^verbatim>\<open>.\<close>, \<^verbatim>\<open>\w\<close>, \<^verbatim>\<open>\d\<close>, escaped punctuation, the two bracket sets of the type
  registry, the greedy quantifiers \<^verbatim>\<open>+\<close> and \<^verbatim>\<open>?\<close> on one character, named groups
  around such atoms, and the anchors \<^verbatim>\<open>^\<close> and \<^verbatim>\<open>$\<close>.  Any other syntax gives
  \<open>Unmodelled\<close>.
\<close>

datatype cclass = Lit char | Dot | Word | Digit | OneOf string | NoneOf string

datatype quant = One | Opt | Plus

datatype atom = Atom cclass quant

datatype item = Single atom | Group string "atom list" | Bol | Eol

type_synonym regex = "item list"

definition newline :: char where
  "newline = CHR 0x0A"

definition is_ascii_alnum :: "char \<Rightarrow> bool" where
  "is_ascii_alnum c =
     (let n = (of_char c :: nat)
      in (48 \<le> n \<and> n \<le> 57) \<or> (65 \<le> n \<and> n \<le> 90) \<or> (97 \<le> n \<and> n \<le> 122))"

text \<open>
  \<^verbatim>\<open>\w\<close> on a text pattern: alphanumeric in the Unicode sense, or the underscore.
  Between 128 and 255 the alphanumeric code points are the letters of Latin-1 and the
  superscript digits and fractions.
\<close>

definition is_word :: "char \<Rightarrow> bool" where
  "is_word c =
     (let n = (of_char c :: nat)
      in is_ascii_alnum c \<or> n = 95
         \<or> n \<in> {170, 178, 179, 181, 185, 186, 188, 189, 190}
         \<or> (192 \<le> n \<and> n \<le> 255 \<and> n \<noteq> 215 \<and> n \<noteq> 247))"

text \<open>\<^verbatim>\<open>str.isidentifier\<close>, which \<^verbatim>\<open>re\<close> demands of a group name.\<close>

definition is_id_start :: "char \<Rightarrow> bool" where
  "is_id_start c =
     (let n = (of_char c :: nat)
      in (65 \<le> n \<and> n \<le> 90) \<or> (97 \<le> n \<and> n \<le> 122) \<or> n = 95
         \<or> n \<in> {170, 181, 186}
         \<or> (192 \<le> n \<and> n \<le> 255 \<and> n \<noteq> 215 \<and> n \<noteq> 247))"

definition is_id_continue :: "char \<Rightarrow> bool" where
  "is_id_continue c = (is_id_start c \<or> is_digit c \<or> (of_char c :: nat) = 183)"

definition is_identifier :: "string \<Rightarrow> bool" where
  "is_identifier s = (case s of [] \<Rightarrow> False | c # cs \<Rightarrow> is_id_start c \<and> list_all is_id_continue cs)"

fun class_match :: "cclass \<Rightarrow> char \<Rightarrow> bool" where
  "class_match (Lit c) x = (x = c)"
| "class_match Dot x = (x \<noteq> newline)"
| "class_match Word x = is_word x"
| "class_match Digit x = is_digit x"
| "class_match (OneOf cs) x = (x \<in> set cs)"
| "class_match (NoneOf cs) x = (x \<notin> set cs)"

subsection \<open>Parsing a pattern\<close>

fun parse_class :: "string \<Rightarrow> exn + (cclass \<times> string)" where
  "parse_class [] = Inl ReError"
| "parse_class (c # cs) =
     (if c = bslash then
        (case cs of
           [] \<Rightarrow> Inl ReError
         | e # cs' \<Rightarrow>
            if e = CHR ''w'' then Inr (Word, cs')
            else if e = CHR ''d'' then Inr (Digit, cs')
            else if is_ascii_alnum e then Inl Unmodelled
            else Inr (Lit e, cs'))
      else if c = CHR ''.'' then Inr (Dot, cs)
      else if c = CHR ''['' then
        (if take 3 cs = ''^/]'' then Inr (NoneOf ''/'', drop 3 cs)
         else if take 3 cs = ''+-]'' then Inr (OneOf ''+-'', drop 3 cs)
         else Inl Unmodelled)
      else if c = CHR ''*'' \<or> c = CHR ''+'' \<or> c = CHR ''?'' then Inl ReError
      else if c = CHR ''|'' \<or> c = CHR ''^'' \<or> c = CHR ''$'' \<or> c = CHR ''{''
              \<or> c = CHR ''('' \<or> c = CHR '')'' then Inl Unmodelled
      else Inr (Lit c, cs))"

definition is_quant_char :: "char \<Rightarrow> bool" where
  "is_quant_char c = (c = CHR ''+'' \<or> c = CHR ''?'' \<or> c = CHR ''*'' \<or> c = CHR ''{'')"

text \<open>
  The quantifier after an atom.  A second quantifier character (lazy and possessive
  forms, repeated repeats), \<^verbatim>\<open>*\<close> and counted repeats are outside the fragment.
\<close>

definition parse_quant :: "string \<Rightarrow> exn + (quant \<times> string)" where
  "parse_quant s =
     (case s of
        [] \<Rightarrow> Inr (One, [])
      | q # cs \<Rightarrow>
         if q = CHR ''+'' \<or> q = CHR ''?'' then
           (if cs \<noteq> [] \<and> is_quant_char (hd cs) then Inl Unmodelled
            else Inr (if q = CHR ''+'' then Plus else Opt, cs))
         else if is_quant_char q then Inl Unmodelled
         else Inr (One, s))"

definition parse_atom :: "string \<Rightarrow> exn + (atom \<times> string)" where
  "parse_atom s =
     (case parse_class s of
        Inl e \<Rightarrow> Inl e
      | Inr (cl, rest) \<Rightarrow>
         (case parse_quant rest of
            Inl e \<Rightarrow> Inl e
          | Inr (q, rest') \<Rightarrow> Inr (Atom cl q, rest')))"

text \<open>The body of a group: atoms up to the closing parenthesis.\<close>

function parse_atoms :: "string \<Rightarrow> exn + (atom list \<times> string)" where
  "parse_atoms s =
     (case s of
        [] \<Rightarrow> Inl ReError
      | c # cs \<Rightarrow>
         if c = CHR '')'' then Inr ([], cs)
         else if c = CHR ''('' \<or> c = CHR ''$'' \<or> c = CHR ''^'' \<or> c = CHR ''|''
         then Inl Unmodelled
         else (case parse_atom s of
                 Inl e \<Rightarrow> Inl e
               | Inr (a, rest) \<Rightarrow>
                  (case parse_atoms rest of
                     Inl e \<Rightarrow> Inl e
                   | Inr (as, rest') \<Rightarrow> Inr (a # as, rest'))))"
  by pat_completeness auto

termination
proof (relation "measure length", goal_cases)
  case 1
  show ?case by simp
next
  case (2 s c cs res a rest)
  then obtain cl r1 q where cl: "parse_class s = Inr (cl, r1)" and q: "parse_quant r1 = Inr (q, rest)"
    by (auto simp: parse_atom_def split: sum.splits prod.splits)
  from cl have "length r1 < length s"
    by (cases s) (auto split: if_splits list.splits)
  moreover from q have "length rest \<le> length r1"
    by (auto simp: parse_quant_def split: if_splits list.splits)
  ultimately show ?case by simp
qed

declare parse_atoms.simps [simp del]

text \<open>
  A named group, after its opening parenthesis: \<^verbatim>\<open>?P<\<close>, the name up to
  \<^verbatim>\<open>>\<close>, the body and the closing parenthesis.  \<open>seen\<close> holds the group names
  met so far: \<^verbatim>\<open>re\<close> refuses a name that is no identifier and a name defined
  twice.  Other uses of a parenthesis and a quantifier on a group are outside the
  fragment.
\<close>

definition parse_group :: "string list \<Rightarrow> string \<Rightarrow> exn + (string \<times> atom list \<times> string)" where
  "parse_group seen cs =
     (if take 3 cs = ''?P<'' then
        (let nm = takeWhile (\<lambda>x. x \<noteq> CHR ''>'') (drop 3 cs);
             after = dropWhile (\<lambda>x. x \<noteq> CHR ''>'') (drop 3 cs)
         in case after of
              [] \<Rightarrow> Inl ReError
            | gt # body \<Rightarrow>
               if \<not> is_identifier nm \<or> nm \<in> set seen then Inl ReError
               else (case parse_atoms body of
                       Inl e \<Rightarrow> Inl e
                     | Inr (as, rest) \<Rightarrow>
                        if rest \<noteq> [] \<and> is_quant_char (hd rest) then Inl Unmodelled
                        else Inr (nm, as, rest)))
      else Inl Unmodelled)"

text \<open>
  A whole pattern: anchors, named groups and atoms.  A quantifier on an anchor is an
  error of \<^verbatim>\<open>re\<close> (a counted repeat there is left outside the fragment).
\<close>

function parse_items :: "string list \<Rightarrow> string \<Rightarrow> exn + regex" where
  "parse_items seen s =
     (case s of
        [] \<Rightarrow> Inr []
      | c # cs \<Rightarrow>
         if c = CHR ''$'' \<or> c = CHR ''^'' then
           (if cs \<noteq> [] \<and> is_quant_char (hd cs)
            then Inl (if hd cs = CHR ''{'' then Unmodelled else ReError)
            else (case parse_items seen cs of
                    Inl e \<Rightarrow> Inl e
                  | Inr its \<Rightarrow> Inr ((if c = CHR ''$'' then Eol else Bol) # its)))
         else if c = CHR ''('' then
           (case parse_group seen cs of
              Inl e \<Rightarrow> Inl e
            | Inr (nm, as, rest) \<Rightarrow>
               (case parse_items (nm # seen) rest of
                  Inl e \<Rightarrow> Inl e
                | Inr its \<Rightarrow> Inr (Group nm as # its)))
         else if c = CHR '')'' then Inl ReError
         else (case parse_atom s of
                 Inl e \<Rightarrow> Inl e
               | Inr (a, rest) \<Rightarrow>
                  (case parse_items seen rest of
                     Inl e \<Rightarrow> Inl e
                   | Inr its \<Rightarrow> Inr (Single a # its))))"
  by pat_completeness auto

termination
proof -
  have atom_shorter: "length rest < length s" if "parse_atom s = Inr (a, rest)" for s a rest
  proof -
    from that obtain cl r1 q where cl: "parse_class s = Inr (cl, r1)"
      and q: "parse_quant r1 = Inr (q, rest)"
      by (auto simp: parse_atom_def split: sum.splits prod.splits)
    from cl have "length r1 < length s"
      by (cases s) (auto split: if_splits list.splits)
    moreover from q have "length rest \<le> length r1"
      by (auto simp: parse_quant_def split: if_splits list.splits)
    ultimately show ?thesis by simp
  qed
  have atoms_shorter: "length rest < length s" if "parse_atoms s = Inr (as, rest)" for s as rest
    using that
  proof (induction s arbitrary: as rest rule: parse_atoms.induct)
    case (1 s)
    show ?case
    proof (cases s)
      case Nil
      with "1.prems" show ?thesis by (simp add: parse_atoms.simps)
    next
      case (Cons c cs)
      show ?thesis
      proof (cases "c = CHR '')''")
        case True
        with Cons "1.prems" show ?thesis by (simp add: parse_atoms.simps)
      next
        case False
        with Cons "1.prems" obtain a r as' where
          nb: "\<not> (c = CHR ''('' \<or> c = CHR ''$'' \<or> c = CHR ''^'' \<or> c = CHR ''|'')" and
          pa: "parse_atom s = Inr (a, r)" and ps: "parse_atoms r = Inr (as', rest)"
          by (subst (asm) parse_atoms.simps) (auto split: if_splits sum.splits)
        from "1.IH"[OF Cons False nb pa refl ps] atom_shorter[OF pa]
        show ?thesis by simp
      qed
    qed
  qed
  have group_shorter: "length rest < length cs"
    if "parse_group seen cs = Inr (nm, as, rest)" for seen cs nm as rest
  proof -
    let ?after = "dropWhile (\<lambda>x. x \<noteq> CHR ''>'') (drop 3 cs)"
    from that obtain gt body where after: "?after = gt # body"
      and body: "parse_atoms body = Inr (as, rest)"
      by (auto simp: parse_group_def Let_def split: if_splits list.splits sum.splits)
    have "length ?after \<le> length (drop 3 cs)"
      by (rule length_dropWhile_le)
    with after have "length body < length cs"
      by simp
    with atoms_shorter[OF body] show ?thesis
      by simp
  qed
  show ?thesis
    by (relation "measure (\<lambda>(seen, s). length s)")
       (auto dest: atom_shorter group_shorter)
qed

declare parse_items.simps [simp del]

definition re_compile :: "string \<Rightarrow> exn + regex" where
  "re_compile p = parse_items [] p"

subsection \<open>Matching\<close>

text \<open>
  A backtracking matcher returns its first success in the order in which it tries
  the alternatives: a greedy quantifier tries the longest repetition first.  The
  functions below list every way to match, in that order, as the text left over;
  \<open>re_match\<close> takes the head.
\<close>

fun m_star :: "cclass \<Rightarrow> string \<Rightarrow> string list" where
  "m_star cl [] = [[]]"
| "m_star cl (c # cs) = (if class_match cl c then m_star cl cs @ [c # cs] else [c # cs])"

fun m_atom :: "atom \<Rightarrow> string \<Rightarrow> string list" where
  "m_atom (Atom cl One) s =
     (case s of [] \<Rightarrow> [] | c # cs \<Rightarrow> if class_match cl c then [cs] else [])"
| "m_atom (Atom cl Opt) s =
     (case s of [] \<Rightarrow> [s] | c # cs \<Rightarrow> if class_match cl c then [cs, s] else [s])"
| "m_atom (Atom cl Plus) s =
     (case s of [] \<Rightarrow> [] | c # cs \<Rightarrow> if class_match cl c then m_star cl cs else [])"

fun m_atoms :: "atom list \<Rightarrow> string \<Rightarrow> string list" where
  "m_atoms [] s = [s]"
| "m_atoms (a # as) s = concat (map (m_atoms as) (m_atom a s))"

text \<open>
  The state of a match is the text left and the groups captured so far, in group
  order; \<open>n0\<close> is the length of the whole text, for \<^verbatim>\<open>^\<close>.  \<^verbatim>\<open>$\<close> holds at the
  end and before a final newline.
\<close>

type_synonym mstate = "string \<times> (string \<times> string) list"

fun m_item :: "nat \<Rightarrow> item \<Rightarrow> mstate \<Rightarrow> mstate list" where
  "m_item n0 (Single a) (s, caps) = map (\<lambda>s'. (s', caps)) (m_atom a s)"
| "m_item n0 (Group nm as) (s, caps) =
     map (\<lambda>s'. (s', caps @ [(nm, take (length s - length s') s)])) (m_atoms as s)"
| "m_item n0 Bol (s, caps) = (if length s = n0 then [(s, caps)] else [])"
| "m_item n0 Eol (s, caps) = (if s = [] \<or> s = [newline] then [(s, caps)] else [])"

fun m_items :: "nat \<Rightarrow> regex \<Rightarrow> mstate \<Rightarrow> mstate list" where
  "m_items n0 [] st = [st]"
| "m_items n0 (i # is) st = concat (map (m_items n0 is) (m_item n0 i st))"

text \<open>
  \<^verbatim>\<open>pattern.match(s)\<close> followed by \<^verbatim>\<open>groupdict()\<close>: \<open>None\<close> for no match, otherwise
  the named groups with the text each captured.  In the fragment every group of a
  pattern takes part in every match, so each name has a text.
\<close>

definition re_match :: "regex \<Rightarrow> string \<Rightarrow> (string \<times> string) list option" where
  "re_match rx s = (case m_items (length s) rx (s, []) of [] \<Rightarrow> None | (s', caps) # more \<Rightarrow> Some caps)"

section \<open>Requests, handlers and filters\<close>

text \<open>
  Of a webob request the router reads \<^verbatim>\<open>method\<close>, \<^verbatim>\<open>path\<close> and \<^verbatim>\<open>host\<close>, and it
  assigns \<^verbatim>\<open>args\<close>; \<open>args = None\<close> is a request on which the attribute has not been
  set.  The attribute \<^verbatim>\<open>method\<close> is the field \<open>req_method\<close>.

  Handlers and hooks are user code: they receive the context (the application, as an
  opaque reference \<open>'ctx\<close>) and the request, may change the rest of the world \<open>'w\<close>,
  and return or raise.  They are taken not to change the request object behind the
  caller's back: a hook that wants another request returns it.
\<close>

record request =
  req_method :: string
  path :: string
  host :: string
  args :: "(string \<rightharpoonup> pyval) option"

type_synonym ('ctx, 'w, 'resp) handler = "'ctx \<Rightarrow> request \<Rightarrow> 'w \<Rightarrow> (exn + 'resp) \<times> 'w"

type_synonym ('ctx, 'w) before_hook = "'ctx \<Rightarrow> request \<Rightarrow> 'w \<Rightarrow> (exn + request) \<times> 'w"

type_synonym ('ctx, 'w, 'resp) after_hook =
  "'ctx \<Rightarrow> request \<Rightarrow> 'resp \<Rightarrow> 'w \<Rightarrow> (exn + 'resp) \<times> 'w"

text \<open>
  An object that is handed to the router as a filter: whether it is an instance of
  \<^verbatim>\<open>Filter\<close>, and the two attributes the filter chain looks up on it (\<open>None\<close> when
  the object has no such attribute).
\<close>

record ('ctx, 'w, 'resp) pyobj =
  is_Filter :: bool
  before_request :: "('ctx, 'w) before_hook option"
  after_request :: "('ctx, 'w, 'resp) after_hook option"

text \<open>\<^verbatim>\<open>Filter()\<close>: both hooks hand back what they are given.\<close>

definition Filter_new :: "('ctx, 'w, 'resp) pyobj" where
  "Filter_new =
     \<lparr>is_Filter = True,
      before_request = Some (\<lambda>ctx request w. (Inr request, w)),
      after_request = Some (\<lambda>ctx request response w. (Inr response, w))\<rparr>"

section \<open>Router\<close>

record ('ctx, 'w, 'resp) route =
  pattern :: regex
  methods :: "string list"
  casts :: "string \<rightharpoonup> cast"
  handler :: "('ctx, 'w, 'resp) handler"

record ('ctx, 'w, 'resp) router =
  routes :: "('ctx, 'w, 'resp) route list"
  domain :: "string option"
  prefix :: string
  filters :: "('ctx, 'w, 'resp) pyobj list"

text \<open>The loop of \<^verbatim>\<open>Router.__init__\<close> over the \<^verbatim>\<open>filters\<close> argument.\<close>

fun init_filters ::
  "('ctx, 'w, 'resp) pyobj list \<Rightarrow> ('ctx, 'w, 'resp) pyobj list
     \<Rightarrow> exn + ('ctx, 'w, 'resp) pyobj list" where
  "init_filters acc [] = Inr acc"
| "init_filters acc (fl # fls) =
     (if is_Filter fl then init_filters (acc @ [fl]) fls else Inl NotAFilter)"

definition Router_init ::
  "string \<Rightarrow> string option \<Rightarrow> ('ctx, 'w, 'resp) pyobj list option
     \<Rightarrow> exn + ('ctx, 'w, 'resp) router" where
  "Router_init pfx dmn fls =
     (case init_filters [] (case fls of None \<Rightarrow> [] | Some fs \<Rightarrow> fs) of
        Inl e \<Rightarrow> Inl e
      | Inr fs \<Rightarrow> Inr \<lparr>routes = [], domain = dmn, prefix = pfx, filters = fs\<rparr>)"

text \<open>
  \<^verbatim>\<open>Router._route\<close>: compile the rule and append the route.  This runs when a route
  is registered.
\<close>

definition private_route ::
  "('ctx, 'w, 'resp) router \<Rightarrow> string \<Rightarrow> string list \<Rightarrow> ('ctx, 'w, 'resp) handler
     \<Rightarrow> exn + ('ctx, 'w, 'resp) router" where
  "private_route r rule ms h =
     (case rule_parse rule of
        Inl e \<Rightarrow> Inl e
      | Inr (pat, cts) \<Rightarrow>
         (case re_compile pat of
            Inl e \<Rightarrow> Inl e
          | Inr rx \<Rightarrow>
             Inr (r\<lparr>routes := routes r @ [\<lparr>pattern = rx, methods = ms, casts = cts, handler = h\<rparr>]\<rparr>)))"

definition default_methods :: "string list" where
  "default_methods = [''GET'', ''POST'', ''PUT'', ''PATCH'', ''DELETE'', ''OPTION'']"

text \<open>
  \<^verbatim>\<open>Router.route(rule, methods)(fn)\<close>: the decorator applied to a handler; it returns
  the handler as it is.
\<close>

definition route_decorator ::
  "('ctx, 'w, 'resp) router \<Rightarrow> string \<Rightarrow> string list option \<Rightarrow> ('ctx, 'w, 'resp) handler
     \<Rightarrow> exn + (('ctx, 'w, 'resp) router \<times> ('ctx, 'w, 'resp) handler)" where
  "route_decorator r rule ms fn =
     (case private_route r rule (case ms of None \<Rightarrow> default_methods | Some m \<Rightarrow> m) fn of
        Inl e \<Rightarrow> Inl e
      | Inr r' \<Rightarrow> Inr (r', fn))"

text \<open>\<^verbatim>\<open>re.match(p, s)\<close> compiles \<open>p\<close> and matches; only its truth value is used.\<close>

definition domain_match :: "('ctx, 'w, 'resp) router \<Rightarrow> request \<Rightarrow> exn + bool" where
  "domain_match r req =
     (case domain r of
        None \<Rightarrow> Inr True
      | Some d \<Rightarrow>
         (case re_compile d of
            Inl e \<Rightarrow> Inl e
          | Inr rx \<Rightarrow> Inr (re_match rx (host req) \<noteq> None)))"

fun startswith :: "string \<Rightarrow> string \<Rightarrow> bool" where
  "startswith s [] = True"
| "startswith [] (p # ps) = False"
| "startswith (c # cs) (p # ps) = (c = p \<and> startswith cs ps)"

definition prefix_match :: "('ctx, 'w, 'resp) router \<Rightarrow> request \<Rightarrow> bool" where
  "prefix_match r req = startswith (path req) (prefix r)"

text \<open>\<^verbatim>\<open>s.replace(old, new, 1)\<close>: the leftmost occurrence of \<open>old\<close> is replaced.\<close>

fun replace_first :: "string \<Rightarrow> string \<Rightarrow> string \<Rightarrow> string" where
  "replace_first [] old new = (if old = [] then new else [])"
| "replace_first (c # cs) old new =
     (if startswith (c # cs) old then new @ drop (length old) (c # cs)
      else c # replace_first cs old new)"

text \<open>
  The two loops of the closure that \<^verbatim>\<open>Router._apply_filter\<close> returns.  A filter
  object without the hook raises \<open>AttributeError\<close>; an exception of a hook ends the
  call.
\<close>

fun run_before ::
  "('ctx, 'w, 'resp) pyobj list \<Rightarrow> 'ctx \<Rightarrow> request \<Rightarrow> 'w \<Rightarrow> (exn + request) \<times> 'w" where
  "run_before [] ctx request w = (Inr request, w)"
| "run_before (fl # fls) ctx request w =
     (case before_request fl of
        None \<Rightarrow> (Inl (AttributeError ''before_request''), w)
      | Some hook \<Rightarrow>
         (case hook ctx request w of
            (Inl e, w') \<Rightarrow> (Inl e, w')
          | (Inr request', w') \<Rightarrow> run_before fls ctx request' w'))"

fun run_after ::
  "('ctx, 'w, 'resp) pyobj list \<Rightarrow> 'ctx \<Rightarrow> request \<Rightarrow> 'resp \<Rightarrow> 'w \<Rightarrow> (exn + 'resp) \<times> 'w" where
  "run_after [] ctx request response w = (Inr response, w)"
| "run_after (fl # fls) ctx request response w =
     (case after_request fl of
        None \<Rightarrow> (Inl (AttributeError ''after_request''), w)
      | Some hook \<Rightarrow>
         (case hook ctx request response w of
            (Inl e, w') \<Rightarrow> (Inl e, w')
          | (Inr response', w') \<Rightarrow> run_after fls ctx request response' w'))"

text \<open>
  \<^verbatim>\<open>Router._apply_filter(handler)\<close>, with the router's filter list as it is when the
  wrapped handler runs.
\<close>

definition apply_filter ::
  "('ctx, 'w, 'resp) pyobj list \<Rightarrow> ('ctx, 'w, 'resp) handler \<Rightarrow> ('ctx, 'w, 'resp) handler" where
  "apply_filter fls h ctx request w =
     (case run_before fls ctx request w of
        (Inl e, w1) \<Rightarrow> (Inl e, w1)
      | (Inr request', w1) \<Rightarrow>
         (case h ctx request' w1 of
            (Inl e, w2) \<Rightarrow> (Inl e, w2)
          | (Inr response, w2) \<Rightarrow> run_after (rev fls) ctx request' response w2))"

text \<open>
  The inner loop of \<^verbatim>\<open>Router.match\<close> over \<^verbatim>\<open>m.groupdict().items()\<close>, filling
  \<^verbatim>\<open>request.args\<close>.
\<close>

fun cast_groups ::
  "(string \<rightharpoonup> cast) \<Rightarrow> (string \<times> string) list \<Rightarrow> (string \<rightharpoonup> pyval)
     \<Rightarrow> exn + (string \<rightharpoonup> pyval)" where
  "cast_groups cts [] a = Inr a"
| "cast_groups cts ((k, v) # kvs) a =
     (case cts k of
        None \<Rightarrow> Inl (KeyError RouteCasts k)
      | Some c \<Rightarrow>
         (case apply_cast c v of
            Inl e \<Rightarrow> Inl e
          | Inr x \<Rightarrow> cast_groups cts kvs (a(k \<mapsto> x))))"

text \<open>
  The loop of \<^verbatim>\<open>Router.match\<close> over the routes.  The result is the value returned
  (\<open>None\<close> when the loop ends without a match) and the request as the call leaves it.
  When a cast raises, the result is the exception; the arguments assigned up to
  then are not kept.
\<close>

fun match_routes ::
  "('ctx, 'w, 'resp) router \<Rightarrow> ('ctx, 'w, 'resp) route list \<Rightarrow> request
     \<Rightarrow> exn + (('ctx, 'w, 'resp) handler option \<times> request)" where
  "match_routes r [] req = Inr (None, req)"
| "match_routes r (rt # rts) req =
     (if req_method req \<in> set (methods rt) then
        (case re_match (pattern rt) (replace_first (path req) (prefix r) []) of
           None \<Rightarrow> match_routes r rts req
         | Some gd \<Rightarrow>
            (case cast_groups (casts rt) gd Map.empty of
               Inl e \<Rightarrow> Inl e
             | Inr a \<Rightarrow> Inr (Some (apply_filter (filters r) (handler rt)), req\<lparr>args := Some a\<rparr>)))
      else match_routes r rts req)"

definition Router_match ::
  "('ctx, 'w, 'resp) router \<Rightarrow> request
     \<Rightarrow> exn + (('ctx, 'w, 'resp) handler option \<times> request)" where
  "Router_match r req =
     (case domain_match r req of
        Inl e \<Rightarrow> Inl e
      | Inr d \<Rightarrow>
         if d \<and> prefix_match r req then match_routes r (routes r) req
         else Inr (None, req))"

definition Router_add_filter ::
  "('ctx, 'w, 'resp) router \<Rightarrow> ('ctx, 'w, 'resp) pyobj \<Rightarrow> ('ctx, 'w, 'resp) router" where
  "Router_add_filter r fl = r\<lparr>filters := filters r @ [fl]\<rparr>"

text \<open>
  \<^verbatim>\<open>Router.before_request(fn)\<close> and \<^verbatim>\<open>Router.after_request(fn)\<close>: a fresh
  \<^verbatim>\<open>Filter\<close> with one hook replaced by \<open>fn\<close> is added, and \<open>fn\<close> is returned.
\<close>

definition Router_before_request ::
  "('ctx, 'w, 'resp) router \<Rightarrow> ('ctx, 'w) before_hook
     \<Rightarrow> ('ctx, 'w, 'resp) router \<times> ('ctx, 'w) before_hook" where
  "Router_before_request r fn =
     (Router_add_filter r (Filter_new\<lparr>before_request := Some fn\<rparr>), fn)"

definition Router_after_request ::
  "('ctx, 'w, 'resp) router \<Rightarrow> ('ctx, 'w, 'resp) after_hook
     \<Rightarrow> ('ctx, 'w, 'resp) router \<times> ('ctx, 'w, 'resp) after_hook" where
  "Router_after_request r fn =
     (Router_add_filter r (Filter_new\<lparr>after_request := Some fn\<rparr>), fn)"

section \<open>Application\<close>

text \<open>
  The application holds its routers, its own filters and the extension registry.
  The registry maps a class name to the object stored under it; objects are known by
  their identity.  The configuration tree and the remaining keyword arguments are
  read from the file system and the caller and play no part in dispatch; they are
  left out.
\<close>

record ('ctx, 'w, 'resp) application =
  routers :: "('ctx, 'w, 'resp) router list"
  app_filters :: "('ctx, 'w, 'resp) pyobj list"
  extensions :: "string \<rightharpoonup> nat"

definition Application_init ::
  "('ctx, 'w, 'resp) router list option \<Rightarrow> ('ctx, 'w, 'resp) application" where
  "Application_init rs =
     \<lparr>routers = (case rs of None \<Rightarrow> [] | Some l \<Rightarrow> l), app_filters = [], extensions = Map.empty\<rparr>"

definition Application_add_router ::
  "('ctx, 'w, 'resp) application \<Rightarrow> ('ctx, 'w, 'resp) router \<Rightarrow> ('ctx, 'w, 'resp) application" where
  "Application_add_router app r = app\<lparr>routers := routers app @ [r]\<rparr>"

definition Application_add_filter ::
  "('ctx, 'w, 'resp) application \<Rightarrow> ('ctx, 'w, 'resp) pyobj \<Rightarrow> ('ctx, 'w, 'resp) application" where
  "Application_add_filter app fl = app\<lparr>app_filters := app_filters app @ [fl]\<rparr>"

text \<open>
  An object handed to \<^verbatim>\<open>register_extension\<close>: its identity, the name of its class,
  and its \<^verbatim>\<open>initialize\<close> method bound to it, which receives the application and may
  change it or raise (\<open>None\<close> when the object has no such method).
\<close>

record 'app pyinstance =
  ident :: nat
  class_name :: string
  initialize :: "('app \<Rightarrow> exn + 'app) option"

text \<open>
  Modelled from the spec: the class \<^verbatim>\<open>Extension\<close> is imported from \<^verbatim>\<open>m/ext.py\<close>,
  which is not among the sources.  By section 4.6 of the specification a component
  is a valid extension exactly when it exposes the operation
  \<^verbatim>\<open>initialize(application)\<close>; \<open>is_Extension\<close> stands for
  \<^verbatim>\<open>isinstance(instance, Extension)\<close>.
\<close>

definition is_Extension :: "'app pyinstance \<Rightarrow> bool" where
  "is_Extension inst = (initialize inst \<noteq> None)"

definition Application_register_extension ::
  "('ctx, 'w, 'resp) application \<Rightarrow> ('ctx, 'w, 'resp) application pyinstance
     \<Rightarrow> exn + ('ctx, 'w, 'resp) application" where
  "Application_register_extension app inst =
     (if is_Extension inst then
        (case initialize inst of
           None \<Rightarrow> Inl (AttributeError ''initialize'')
         | Some init \<Rightarrow>
            (case init app of
               Inl e \<Rightarrow> Inl e
             | Inr app' \<Rightarrow> Inr (app'\<lparr>extensions := (extensions app')(class_name inst \<mapsto> ident inst)\<rparr>)))
      else Inr app)"

text \<open>
  The body of \<^verbatim>\<open>Application.__call__\<close>: the loop over the routers.  \<open>ctx\<close> is the
  reference to the application that the hooks and the handler receive as
  \<^verbatim>\<open>self\<close>.  The decorator \<^verbatim>\<open>wsgify\<close> around it, which turns the raised
  \<^verbatim>\<open>HTTPNotFound\<close> into the 404 response, is webob's.
\<close>

fun call_loop ::
  "('ctx, 'w, 'resp) application \<Rightarrow> ('ctx, 'w, 'resp) router list \<Rightarrow> 'ctx \<Rightarrow> request \<Rightarrow> 'w
     \<Rightarrow> (exn + 'resp) \<times> 'w" where
  "call_loop app [] ctx request w = (Inl (HTTPNotFound ''no handler match''), w)"
| "call_loop app (r # rs) ctx request w =
     (case Router_match r request of
        Inl e \<Rightarrow> (Inl e, w)
      | Inr (None, request') \<Rightarrow> call_loop app rs ctx request' w
      | Inr (Some h, request') \<Rightarrow>
         (case run_before (app_filters app) ctx request' w of
            (Inl e, w1) \<Rightarrow> (Inl e, w1)
          | (Inr request'', w1) \<Rightarrow>
             (case h ctx request'' w1 of
                (Inl e, w2) \<Rightarrow> (Inl e, w2)
              | (Inr res, w2) \<Rightarrow> run_after (rev (app_filters app)) ctx request'' res w2)))"

definition Application_call ::
  "('ctx, 'w, 'resp) application \<Rightarrow> 'ctx \<Rightarrow> request \<Rightarrow> 'w \<Rightarrow> (exn + 'resp) \<times> 'w" where
  "Application_call app ctx request w = call_loop app (routers app) ctx request w"

section \<open>Terms of the properties\<close>

text \<open>A route is hit by a request when its method set and its pattern both accept it.\<close>

definition route_hit ::
  "('ctx, 'w, 'resp) router \<Rightarrow> request \<Rightarrow> ('ctx, 'w, 'resp) route \<Rightarrow> bool" where
  "route_hit r req rt =
     (req_method req \<in> set (methods rt)
      \<and> re_match (pattern rt) (replace_first (path req) (prefix r) []) \<noteq> None)"

text \<open>
  The words of the specification about a parameter specification (the text between
  an opening brace met outside a specification and the next closing brace): its
  number of type separators, its name, its type tag (\<^verbatim>\<open>str\<close> when there is no
  separator), the five known tags, and the specifications of a rule in the order of
  the scan.  A specification offends when it has more than one separator or its tag
  is unknown.
\<close>

definition sep_count :: "string \<Rightarrow> nat" where
  "sep_count s = length (filter (\<lambda>c. c = CHR '':'') s)"

definition param_name :: "string \<Rightarrow> string" where
  "param_name s = takeWhile (\<lambda>c. c \<noteq> CHR '':'') s"

definition type_tag :: "string \<Rightarrow> string" where
  "type_tag s = (if CHR '':'' \<in> set s then tl (dropWhile (\<lambda>c. c \<noteq> CHR '':'') s) else ''str'')"

definition known_tags :: "string list" where
  "known_tags = [''str'', ''word'', ''any'', ''int'', ''float'']"

definition spec_offends :: "string \<Rightarrow> bool" where
  "spec_offends s = (sep_count s > 1 \<or> type_tag s \<notin> set known_tags)"

fun scan_specs :: "string \<Rightarrow> string \<Rightarrow> bool \<Rightarrow> string list" where
  "scan_specs [] spec is_spec = []"
| "scan_specs (c # cs) spec is_spec =
     (if c = CHR ''{'' \<and> \<not> is_spec then scan_specs cs spec True
      else if c = CHR ''}'' \<and> is_spec then spec # scan_specs cs [] False
      else if is_spec then scan_specs cs (spec @ [c]) is_spec
      else scan_specs cs spec is_spec)"

definition rule_specs :: "string \<Rightarrow> string list" where
  "rule_specs rule = scan_specs rule [] False"

text \<open>
  The first exception that \<^verbatim>\<open>_spec_parse\<close> raises on a list of specifications, and
  the two ways in which the model of \<^verbatim>\<open>re.compile\<close> can fail.
\<close>

fun first_error :: "string list \<Rightarrow> exn option" where
  "first_error [] = None"
| "first_error (s # ss) = (case spec_parse s of Inl e \<Rightarrow> Some e | Inr x \<Rightarrow> first_error ss)"

definition re_failure :: "exn \<Rightarrow> bool" where
  "re_failure e = (e = ReError \<or> e = Unmodelled)"

text \<open>
  To observe the order in which the hooks run, each hook and the handler is wrapped
  so that it writes an event into a log kept beside the world: \<open>EvBefore i\<close> and
  \<open>EvAfter i\<close> for the hooks of the filter at position \<open>i\<close> of the list (position
  0 is the filter registered first), \<open>EvHandler\<close> for the handler.  The wrapped hook
  otherwise does what the hook does.
\<close>

datatype event = EvBefore nat | EvHandler | EvAfter nat

definition traced_before :: "nat \<Rightarrow> ('ctx, 'w) before_hook \<Rightarrow> ('ctx, event list \<times> 'w) before_hook" where
  "traced_before i hook =
     (\<lambda>ctx request (log, w). case hook ctx request w of (res, w') \<Rightarrow> (res, (log @ [EvBefore i], w')))"

definition traced_after ::
  "nat \<Rightarrow> ('ctx, 'w, 'resp) after_hook \<Rightarrow> ('ctx, event list \<times> 'w, 'resp) after_hook" where
  "traced_after i hook =
     (\<lambda>ctx request response (log, w).
        case hook ctx request response w of (res, w') \<Rightarrow> (res, (log @ [EvAfter i], w')))"

definition traced_handler :: "('ctx, 'w, 'resp) handler \<Rightarrow> ('ctx, event list \<times> 'w, 'resp) handler" where
  "traced_handler h =
     (\<lambda>ctx request (log, w). case h ctx request w of (res, w') \<Rightarrow> (res, (log @ [EvHandler], w')))"

definition traced_filter ::
  "nat \<times> ('ctx, 'w, 'resp) pyobj \<Rightarrow> ('ctx, event list \<times> 'w, 'resp) pyobj" where
  "traced_filter p =
     \<lparr>is_Filter = is_Filter (snd p),
      before_request = map_option (traced_before (fst p)) (before_request (snd p)),
      after_request = map_option (traced_after (fst p)) (after_request (snd p))\<rparr>"

definition traced_filters ::
  "('ctx, 'w, 'resp) pyobj list \<Rightarrow> ('ctx, event list \<times> 'w, 'resp) pyobj list" where
  "traced_filters fls = map traced_filter (enumerate 0 fls)"

text \<open>
  A character of a rule is plain when it means itself both to the scan of
  \<^verbatim>\<open>_rule_parse\<close> (no brace) and to \<^verbatim>\<open>re\<close> (no metacharacter).  \<open>lit c\<close> is the
  pattern item of a plain character.
\<close>

definition plain_char :: "char \<Rightarrow> bool" where
  "plain_char c = (c \<notin> set (bslash # ''.[*+?|^$(){}''))"

definition lit :: "char \<Rightarrow> item" where
  "lit c = Single (Atom (Lit c) One)"

text \<open>
  The group bodies that the fragments of the tags \<^verbatim>\<open>str\<close>, \<^verbatim>\<open>word\<close> and
  \<^verbatim>\<open>int\<close> parse to, and the pattern of a rule that has one parameter between two
  runs of plain characters.
\<close>

definition str_body :: "atom list" where
  "str_body = [Atom (NoneOf ''/'') One, Atom Dot Plus]"

definition word_body :: "atom list" where
  "word_body = [Atom Word Plus]"

definition int_body :: "atom list" where
  "int_body = [Atom (OneOf ''+-'') Opt, Atom Digit Plus]"

definition one_param_regex :: "string \<Rightarrow> string \<Rightarrow> atom list \<Rightarrow> string \<Rightarrow> regex" where
  "one_param_regex pre nm body suf = map lit pre @ [Group nm body] @ map lit suf @ [Eol]"

text \<open>Every text captured under the name \<open>nm\<close> has at least two characters.\<close>

definition caps_long :: "string \<Rightarrow> (string \<times> string) list \<Rightarrow> bool" where
  "caps_long nm caps = (\<forall>v. (nm, v) \<in> set caps \<longrightarrow> 2 \<le> length v)"

section \<open>Example values\<close>

text \<open>
  Values for the concrete instances below.  The context is \<open>unit\<close>, the world a
  log of strings, a response a string.  A handler that answers with a fixed text, a
  route for a literal path, a \<^verbatim>\<open>GET\<close> request, and a router with nothing in it.
\<close>

definition say :: "string \<Rightarrow> (unit, string list, string) handler" where
  "say txt = (\<lambda>ctx request w. (Inr txt, w @ [txt]))"

definition lit_route :: "string \<Rightarrow> string \<Rightarrow> (unit, string list, string) route" where
  "lit_route p txt =
     \<lparr>pattern = map (\<lambda>c. Single (Atom (Lit c) One)) p @ [Eol], methods = [''GET''],
      casts = Map.empty, handler = say txt\<rparr>"

definition get_request :: "string \<Rightarrow> request" where
  "get_request p = \<lparr>req_method = ''GET'', path = p, host = ''example.com'', args = None\<rparr>"

definition empty_router :: "(unit, string list, string) router" where
  "empty_router = \<lparr>routes = [], domain = None, prefix = [], filters = []\<rparr>"

text \<open>
  An application with a router for \<^verbatim>\<open>/a\<close> added before a router that has two routes
  for \<^verbatim>\<open>/b\<close>.
\<close>

definition two_routers_app :: "(unit, string list, string) application" where
  "two_routers_app =
     \<lparr>routers = [\<lparr>routes = [lit_route ''/a'' ''A''], domain = None, prefix = [], filters = []\<rparr>,
                 \<lparr>routes = [lit_route ''/b'' ''B1'', lit_route ''/b'' ''B2''], domain = None,
                  prefix = [], filters = []\<rparr>],
      app_filters = [], extensions = Map.empty\<rparr>"

text \<open>An object that is no filter and has neither hook.\<close>

definition not_a_filter :: "(unit, string list, string) pyobj" where
  "not_a_filter = \<lparr>is_Filter = False, before_request = None, after_request = None\<rparr>"

text \<open>
  Three instances: one whose \<^verbatim>\<open>initialize\<close> adds a router to the application, a
  second of the same class, and an object without \<^verbatim>\<open>initialize\<close>.
\<close>

definition ext_one :: "(unit, string list, string) application pyinstance" where
  "ext_one =
     \<lparr>ident = 7, class_name = ''Db'',
      initialize = Some (\<lambda>app. Inr (Application_add_router app
                     \<lparr>routes = [], domain = None, prefix = ''/db'', filters = []\<rparr>))\<rparr>"

definition ext_two :: "(unit, string list, string) application pyinstance" where
  "ext_two = \<lparr>ident = 8, class_name = ''Db'', initialize = Some Inr\<rparr>"

definition no_ext :: "(unit, string list, string) application pyinstance" where
  "no_ext = \<lparr>ident = 3, class_name = ''Plain'', initialize = None\<rparr>"

text \<open>
  Two filters that append their tag to the path on the way in and to the response on
  the way out, around a handler that answers with the path it sees.  Each call is
  written to a log, which is the world here; a filter on the way out writes the path
  of the request it is given.
\<close>

definition tag_filter :: "string \<Rightarrow> (unit, string list, string) pyobj" where
  "tag_filter t =
     \<lparr>is_Filter = True,
      before_request = Some (\<lambda>ctx request w. (Inr (request\<lparr>path := path request @ t\<rparr>), w @ [''before '' @ t])),
      after_request = Some (\<lambda>ctx request response w.
                              (Inr (response @ t), w @ [''after '' @ t @ '' of '' @ path request]))\<rparr>"

definition echo_path :: "(unit, string list, string) handler" where
  "echo_path = (\<lambda>ctx request w. (Inr (path request), w @ [''handler'']))"

section \<open>Dispatch: what a failed match leaves behind\<close>

lemma match_routes_absent: "match_routes r rts req = Inr (None, req') \<Longrightarrow> req' = req"
  by (induction rts) (auto split: if_splits option.splits sum.splits)

lemma match_routes_absent_iff:
  "(\<exists>req'. match_routes r rts req = Inr (None, req')) \<longleftrightarrow> (\<forall>rt \<in> set rts. \<not> route_hit r req rt)"
  by (induction rts) (auto simp: route_hit_def split: if_splits option.splits sum.splits)

lemma match_routes_skip:
  "\<forall>rt \<in> set rs1. \<not> route_hit r req rt \<Longrightarrow>
   match_routes r (rs1 @ rs2) req = match_routes r rs2 req"
  by (induction rs1) (auto simp: route_hit_def)

lemma Router_match_absent: "Router_match r req = Inr (None, req') \<Longrightarrow> req' = req"
  by (auto simp: Router_match_def split: sum.splits if_splits dest: match_routes_absent)

text \<open>
  Claim C9.  When \<^verbatim>\<open>Router.match\<close> returns \<^verbatim>\<open>None\<close> the request is the one it was
  given, its \<^verbatim>\<open>args\<close> included; and it returns \<^verbatim>\<open>None\<close> exactly when the domain
  test fails, or the prefix test fails, or no route is hit (for each route the method
  test or the pattern match fails).
\<close>

theorem Router_match_absent_frame:
  "(Router_match r req = Inr (None, req') \<longrightarrow> req' = req \<and> args req' = args req)
   \<and> ((\<exists>q. Router_match r req = Inr (None, q)) \<longleftrightarrow>
        domain_match r req = Inr False
        \<or> (domain_match r req = Inr True
            \<and> (\<not> prefix_match r req \<or> (\<forall>rt \<in> set (routes r). \<not> route_hit r req rt))))"
proof -
  have frame: "Router_match r req = Inr (None, req') \<longrightarrow> req' = req \<and> args req' = args req"
    by (auto dest: Router_match_absent)
  have "(\<exists>q. Router_match r req = Inr (None, q)) \<longleftrightarrow>
        domain_match r req = Inr False
        \<or> (domain_match r req = Inr True
            \<and> (\<not> prefix_match r req \<or> (\<forall>rt \<in> set (routes r). \<not> route_hit r req rt)))"
  proof (cases "domain_match r req")
    case (Inl e)
    then show ?thesis by (simp add: Router_match_def)
  next
    case (Inr d)
    then show ?thesis
      using match_routes_absent_iff[of r "routes r" req]
      by (cases d) (auto simp: Router_match_def)
  qed
  with frame show ?thesis by blast
qed

theorem Router_match_absent_frame_witness:
  "Router_match \<lparr>routes = [lit_route ''/a'' ''A''], domain = None, prefix = ''/api'', filters = []\<rparr>
     ((get_request ''/api/b'')\<lparr>args := Some [''k'' \<mapsto> VInt 1]\<rparr>)
   = Inr (None, (get_request ''/api/b'')\<lparr>args := Some [''k'' \<mapsto> VInt 1]\<rparr>)
   \<and> args ((get_request ''/api/b'')\<lparr>args := Some [''k'' \<mapsto> VInt 1]\<rparr>) = Some [''k'' \<mapsto> VInt 1]"
proof -
  let ?r = "\<lparr>routes = [lit_route ''/a'' ''A''], domain = None, prefix = ''/api'', filters = []\<rparr>
              :: (unit, string list, string) router"
  let ?q = "(get_request ''/api/b'')\<lparr>args := Some [''k'' \<mapsto> VInt 1]\<rparr>"
  have "\<not> route_hit ?r ?q (lit_route ''/a'' ''A'')"
    by (simp add: route_hit_def lit_route_def get_request_def re_match_def)
  moreover have "domain_match ?r ?q = Inr True"
    by (simp add: domain_match_def)
  ultimately have "\<exists>q. Router_match ?r ?q = Inr (None, q)"
    using Router_match_absent_frame[of ?r ?q ?q] by simp
  then obtain q where q: "Router_match ?r ?q = Inr (None, q)" ..
  with Router_match_absent_frame[of ?r ?q q] have "q = ?q" by blast
  with q show ?thesis by simp
qed

section \<open>Application: no router matches\<close>

lemma call_loop_none:
  "\<forall>r \<in> set rs. \<exists>q. Router_match r req = Inr (None, q) \<Longrightarrow>
   call_loop app rs ctx req w = (Inl (HTTPNotFound ''no handler match''), w)"
proof (induction rs)
  case Nil
  show ?case by simp
next
  case (Cons r rs)
  then obtain q where q: "Router_match r req = Inr (None, q)" by auto
  then have "q = req" by (rule Router_match_absent)
  with q Cons show ?case by simp
qed

lemma call_loop_skip:
  "\<forall>r \<in> set rs1. \<exists>q. Router_match r req = Inr (None, q) \<Longrightarrow>
   call_loop app (rs1 @ rs2) ctx req w = call_loop app rs2 ctx req w"
proof (induction rs1)
  case Nil
  show ?case by simp
next
  case (Cons r rs)
  then obtain q where q: "Router_match r req = Inr (None, q)" by auto
  then have "q = req" by (rule Router_match_absent)
  with q Cons show ?case by simp
qed

text \<open>
  Claim C8.  When the match operation of every router of the application returns
  \<^verbatim>\<open>None\<close> for the request, the invocation raises \<^verbatim>\<open>HTTPNotFound\<close> with the
  detail text \<^verbatim>\<open>no handler match\<close>; it returns no response, and the world is as
  it was.
\<close>

theorem Application_call_not_found:
  "\<forall>r \<in> set (routers app). \<exists>q. Router_match r req = Inr (None, q) \<Longrightarrow>
   Application_call app ctx req w = (Inl (HTTPNotFound ''no handler match''), w)"
  unfolding Application_call_def by (rule call_loop_none)

theorem Application_call_not_found_witness:
  "Application_call
     \<lparr>routers = [\<lparr>routes = [lit_route ''/a'' ''A''], domain = None, prefix = [], filters = []\<rparr>,
                 \<lparr>routes = [lit_route ''/b'' ''B''], domain = None, prefix = [], filters = []\<rparr>],
      app_filters = [], extensions = Map.empty\<rparr>
     () (get_request ''/c'') []
   = (Inl (HTTPNotFound ''no handler match''), [])"
proof -
  let ?ra = "\<lparr>routes = [lit_route ''/a'' ''A''], domain = None, prefix = [], filters = []\<rparr>
               :: (unit, string list, string) router"
  let ?rb = "\<lparr>routes = [lit_route ''/b'' ''B''], domain = None, prefix = [], filters = []\<rparr>
               :: (unit, string list, string) router"
  have a: "Router_match ?ra (get_request ''/c'') = Inr (None, get_request ''/c'')"
    by (simp add: Router_match_def domain_match_def prefix_match_def lit_route_def
          get_request_def re_match_def)
  have b: "Router_match ?rb (get_request ''/c'') = Inr (None, get_request ''/c'')"
    by (simp add: Router_match_def domain_match_def prefix_match_def lit_route_def
          get_request_def re_match_def)
  show ?thesis
    by (rule Application_call_not_found) (use a b in auto)
qed

section \<open>Dispatch order\<close>

lemma call_loop_hit:
  "Router_match r req = Inr (Some h, req') \<Longrightarrow>
   call_loop app (r # rs) ctx req w = apply_filter (app_filters app) h ctx req' w"
  by (simp add: apply_filter_def)

text \<open>
  Claim C5.  In a router whose domain and prefix tests pass, the first route in
  registration order that the request hits decides the result, whatever routes
  follow it: the match returns that route's handler in the router's filter chain and
  sets the arguments cast from that route's groups.  The application skips every
  router whose match returns \<^verbatim>\<open>None\<close> and runs the handler of the first router
  whose match returns one, inside the application's own filter chain.
\<close>

theorem first_match_wins:
  "(domain_match r req = Inr True \<and> prefix_match r req
      \<and> routes r = rs1 @ rt # rs2 \<and> (\<forall>x \<in> set rs1. \<not> route_hit r req x)
      \<and> req_method req \<in> set (methods rt)
      \<and> re_match (pattern rt) (replace_first (path req) (prefix r) []) = Some gd
      \<and> cast_groups (casts rt) gd Map.empty = Inr a
     \<longrightarrow> Router_match r req
           = Inr (Some (apply_filter (filters r) (handler rt)), req\<lparr>args := Some a\<rparr>))
   \<and> (routers app = as @ r # bs \<and> (\<forall>x \<in> set as. \<exists>q. Router_match x req = Inr (None, q))
      \<and> Router_match r req = Inr (Some h, req')
     \<longrightarrow> Application_call app ctx req w = apply_filter (app_filters app) h ctx req' w)"
proof -
  have "Router_match r req
           = Inr (Some (apply_filter (filters r) (handler rt)), req\<lparr>args := Some a\<rparr>)"
    if "domain_match r req = Inr True" "prefix_match r req" "routes r = rs1 @ rt # rs2"
       "\<forall>x \<in> set rs1. \<not> route_hit r req x" "req_method req \<in> set (methods rt)"
       "re_match (pattern rt) (replace_first (path req) (prefix r) []) = Some gd"
       "cast_groups (casts rt) gd Map.empty = Inr a"
  proof -
    have "Router_match r req = match_routes r (rs1 @ rt # rs2) req"
      using that(1-3) by (simp add: Router_match_def)
    also have "\<dots> = match_routes r (rt # rs2) req"
      using that(4) by (rule match_routes_skip)
    finally show ?thesis using that(5-7) by simp
  qed
  moreover have "Application_call app ctx req w = apply_filter (app_filters app) h ctx req' w"
    if "routers app = as @ r # bs" "\<forall>x \<in> set as. \<exists>q. Router_match x req = Inr (None, q)"
       "Router_match r req = Inr (Some h, req')"
  proof -
    have "Application_call app ctx req w = call_loop app (r # bs) ctx req w"
      using that(1) call_loop_skip[OF that(2)] by (simp add: Application_call_def)
    also have "\<dots> = apply_filter (app_filters app) h ctx req' w"
      using that(3) by (rule call_loop_hit)
    finally show ?thesis .
  qed
  ultimately show ?thesis by blast
qed

theorem first_match_wins_witness:
  "Application_call two_routers_app () (get_request ''/b'') [] = (Inr ''B1'', [''B1''])"
proof -
  let ?ra = "\<lparr>routes = [lit_route ''/a'' ''A''], domain = None, prefix = [], filters = []\<rparr>
               :: (unit, string list, string) router"
  let ?rb = "\<lparr>routes = [lit_route ''/b'' ''B1'', lit_route ''/b'' ''B2''], domain = None,
                  prefix = [], filters = []\<rparr> :: (unit, string list, string) router"
  let ?q = "get_request ''/b''"
  have a: "Router_match ?ra ?q = Inr (None, ?q)"
    by (simp add: Router_match_def domain_match_def prefix_match_def lit_route_def
          get_request_def re_match_def)
  have m: "re_match (pattern (lit_route ''/b'' ''B1'')) (replace_first (path ?q) (prefix ?rb) [])
           = Some []"
    by (simp add: lit_route_def get_request_def re_match_def)
  have b: "Router_match ?rb ?q
           = Inr (Some (apply_filter (filters ?rb) (handler (lit_route ''/b'' ''B1''))),
                  ?q\<lparr>args := Some Map.empty\<rparr>)"
    using first_match_wins[of ?rb ?q "[]" "lit_route ''/b'' ''B1''" "[lit_route ''/b'' ''B2'']"
        "[]" Map.empty] m
    by (simp add: domain_match_def prefix_match_def) (simp add: lit_route_def get_request_def)
  have "Application_call two_routers_app () ?q []
        = apply_filter [] (apply_filter [] (say ''B1'')) () (?q\<lparr>args := Some Map.empty\<rparr>) []"
    using first_match_wins[of ?rb ?q "[]" "lit_route ''/b'' ''B1''" "[lit_route ''/b'' ''B2'']"
        "[]" Map.empty two_routers_app "[?ra]" "[]" "apply_filter [] (say ''B1'')"
        "?q\<lparr>args := Some Map.empty\<rparr>" "()" "[]"] a b
    by (simp add: two_routers_app_def) (simp add: lit_route_def)
  then show ?thesis
    by (simp add: apply_filter_def say_def)
qed

section \<open>Adding filters\<close>

lemma init_filters_result:
  "init_filters acc fls = (if list_all is_Filter fls then Inr (acc @ fls) else Inl NotAFilter)"
  by (induction fls arbitrary: acc) auto

text \<open>
  Claim C10.  \<^verbatim>\<open>Router.add_filter\<close> appends its argument to the filter list
  whatever the argument is, an object that is no \<^verbatim>\<open>Filter\<close> included; the two
  convenience registrations append a fresh \<^verbatim>\<open>Filter\<close> with the one hook replaced
  and return the function.  None of the three has a raising branch (their results
  carry no exception).  Only the constructor looks at \<open>is_Filter\<close>: it raises when
  some element of its \<^verbatim>\<open>filters\<close> argument is not a \<^verbatim>\<open>Filter\<close>.
\<close>

theorem add_filter_unchecked:
  "filters (Router_add_filter r x) = filters r @ [x]
   \<and> routes (Router_add_filter r x) = routes r
   \<and> filters (fst (Router_before_request r bf)) = filters r @ [Filter_new\<lparr>before_request := Some bf\<rparr>]
   \<and> snd (Router_before_request r bf) = bf
   \<and> filters (fst (Router_after_request r af)) = filters r @ [Filter_new\<lparr>after_request := Some af\<rparr>]
   \<and> snd (Router_after_request r af) = af
   \<and> Router_init p d fo
       = (if list_all is_Filter (case fo of None \<Rightarrow> [] | Some fls \<Rightarrow> fls)
          then Inr \<lparr>routes = [], domain = d, prefix = p,
                    filters = (case fo of None \<Rightarrow> [] | Some fls \<Rightarrow> fls)\<rparr>
          else Inl NotAFilter)"
  by (simp add: Router_add_filter_def Router_before_request_def Router_after_request_def
        Router_init_def init_filters_result)

theorem add_filter_unchecked_witness:
  "filters (Router_add_filter \<lparr>routes = [], domain = None, prefix = [], filters = []\<rparr> not_a_filter)
     = [not_a_filter]
   \<and> Router_init [] None (Some [not_a_filter]) = Inl NotAFilter"
  using add_filter_unchecked[of "\<lparr>routes = [], domain = None, prefix = [], filters = []\<rparr>"
      not_a_filter "\<lambda>ctx request w. (Inr request, w)"
      "\<lambda>ctx request response w. (Inr response, w)" "[]" None "Some [not_a_filter]"]
  by (simp add: not_a_filter_def)

section \<open>Registering extensions\<close>

text \<open>
  Claim C2.  An instance satisfies the protocol exactly when it has an
  \<^verbatim>\<open>initialize\<close> operation.  For such an instance registration applies
  \<^verbatim>\<open>initialize\<close> to the application, once, and then stores the instance under its
  class name in the registry that \<^verbatim>\<open>initialize\<close> left, replacing what was stored
  under that name; an exception of \<^verbatim>\<open>initialize\<close> passes through.  For any other
  instance registration returns without an exception and the application is
  unchanged.
\<close>

theorem register_extension_protocol:
  "(is_Extension inst \<longleftrightarrow> (\<exists>init. initialize inst = Some init))
   \<and> (initialize inst = Some init \<and> init app = Inr app'
        \<longrightarrow> Application_register_extension app inst
              = Inr (app'\<lparr>extensions := (extensions app')(class_name inst \<mapsto> ident inst)\<rparr>))
   \<and> (initialize inst = Some init \<and> init app = Inl e
        \<longrightarrow> Application_register_extension app inst = Inl e)
   \<and> (\<not> is_Extension inst \<longrightarrow> Application_register_extension app inst = Inr app)"
  by (auto simp: Application_register_extension_def is_Extension_def)

theorem register_extension_protocol_witness:
  "Application_register_extension (Application_init None) no_ext = Inr (Application_init None)
   \<and> (case Application_register_extension (Application_init None) ext_one of
         Inl e \<Rightarrow> False
       | Inr app1 \<Rightarrow>
           extensions app1 = [''Db'' \<mapsto> 7] \<and> length (routers app1) = 1
           \<and> (case Application_register_extension app1 ext_two of
                 Inl e \<Rightarrow> False
               | Inr app2 \<Rightarrow> extensions app2 = [''Db'' \<mapsto> 8] \<and> length (routers app2) = 1))"
proof -
  let ?app0 = "Application_init None :: (unit, string list, string) application"
  let ?r = "\<lparr>routes = [], domain = None, prefix = ''/db'', filters = []\<rparr>
              :: (unit, string list, string) router"
  define app1 where "app1 = (Application_add_router ?app0 ?r)\<lparr>extensions := [''Db'' \<mapsto> 7]\<rparr>"
  have n: "Application_register_extension ?app0 no_ext = Inr ?app0"
    using register_extension_protocol[of no_ext undefined ?app0 undefined undefined]
    by (simp add: no_ext_def)
  have one: "Application_register_extension ?app0 ext_one = Inr app1"
    using register_extension_protocol[of ext_one
        "\<lambda>app. Inr (Application_add_router app ?r)" ?app0 "Application_add_router ?app0 ?r" undefined]
    by (simp add: app1_def ext_one_def Application_init_def Application_add_router_def)
  have two: "Application_register_extension app1 ext_two
             = Inr (app1\<lparr>extensions := [''Db'' \<mapsto> 8]\<rparr>)"
    using register_extension_protocol[of ext_two Inr app1 app1 undefined]
    by (simp add: ext_two_def app1_def Application_init_def Application_add_router_def)
  have f: "extensions app1 = [''Db'' \<mapsto> 7]" "length (routers app1) = 1"
    by (simp_all add: app1_def Application_init_def Application_add_router_def)
  show ?thesis
    by (simp add: n one two f)
qed

section \<open>Errors of rule compilation\<close>

text \<open>What \<^verbatim>\<open>split\<close> and \<^verbatim>\<open>_spec_parse\<close> do, in the terms above.\<close>

lemma split_sep_not_Nil: "split_sep c s \<noteq> []"
  by (induction s) (auto split: list.splits)

lemma length_split_sep: "length (split_sep c s) = Suc (length (filter (\<lambda>x. x = c) s))"
  by (induction s) (auto split: list.splits)

lemma split_sep_no_sep: "c \<notin> set s \<Longrightarrow> split_sep c s = [s]"
  by (induction s) auto

lemma split_sep_first:
  "c \<in> set s \<Longrightarrow>
   split_sep c s = takeWhile (\<lambda>x. x \<noteq> c) s # split_sep c (tl (dropWhile (\<lambda>x. x \<noteq> c) s))"
proof (induction s)
  case Nil
  then show ?case by simp
next
  case (Cons x xs)
  show ?case
  proof (cases "x = c")
    case True
    then show ?thesis by simp
  next
    case False
    with Cons.prems have "c \<in> set xs" by simp
    from Cons.IH[OF this] False show ?thesis by simp
  qed
qed

lemma sep_count_first:
  "CHR '':'' \<in> set s \<Longrightarrow>
   sep_count s = Suc (sep_count (tl (dropWhile (\<lambda>c. c \<noteq> CHR '':'') s)))"
  by (induction s) (auto simp: sep_count_def)

lemma sep_count_zero: "sep_count s = 0 \<longleftrightarrow> CHR '':'' \<notin> set s"
  by (auto simp: sep_count_def filter_empty_conv)

lemma PATTERNS_known: "PATTERNS t = None \<longleftrightarrow> t \<notin> set known_tags"
  by (simp add: PATTERNS_def known_tags_def)

lemma CASTS_known: "CASTS t = None \<longleftrightarrow> t \<notin> set known_tags"
  by (simp add: CASTS_def known_tags_def)

lemma spec_parse_split:
  "spec_parse s =
     (if sep_count s > 1 then Inl ErrorPattern
      else if type_tag s \<notin> set known_tags then Inl (KeyError TypeRegistry (type_tag s))
      else Inr (param_name s,
                ''(?P<'' @ param_name s @ ''>'' @ the (PATTERNS (type_tag s)) @ '')'',
                the (CASTS (type_tag s))))"
proof (cases "CHR '':'' \<in> set s")
  case False
  then have c0: "sep_count s = 0" by (simp add: sep_count_zero)
  from False have sp: "split_sep CHR '':'' s = [s]" by (rule split_sep_no_sep)
  from False have nm: "param_name s = s"
    by (auto simp: param_name_def takeWhile_eq_all_conv)
  from False have tag: "type_tag s = ''str''" by (simp add: type_tag_def)
  show ?thesis
    unfolding spec_parse_def sp c0 nm tag
    by (simp add: known_tags_def PATTERNS_def CASTS_def)
next
  case True
  define rest where "rest = tl (dropWhile (\<lambda>c. c \<noteq> CHR '':'') s)"
  have cnt: "sep_count s = Suc (sep_count rest)"
    unfolding rest_def using True by (rule sep_count_first)
  have sp: "split_sep CHR '':'' s = param_name s # split_sep CHR '':'' rest"
    unfolding rest_def param_name_def using True by (rule split_sep_first)
  have tag: "type_tag s = rest" using True by (simp add: type_tag_def rest_def)
  show ?thesis
  proof (cases "CHR '':'' \<in> set rest")
    case True
    then have "sep_count rest > 0" using sep_count_zero[of rest] by simp
    with cnt have big: "sep_count s > 1" by simp
    have "length (split_sep CHR '':'' s) = Suc (sep_count s)"
      by (simp add: length_split_sep sep_count_def)
    with big show ?thesis by (simp add: spec_parse_def)
  next
    case False
    then have c0: "sep_count rest = 0" by (simp add: sep_count_zero)
    from False have sr: "split_sep CHR '':'' rest = [rest]" by (rule split_sep_no_sep)
    show ?thesis
    proof (cases "rest \<in> set known_tags")
      case True
      then obtain f c where "PATTERNS rest = Some f" "CASTS rest = Some c"
        using PATTERNS_known[of rest] CASTS_known[of rest] by auto
      then show ?thesis
        unfolding spec_parse_def sp sr cnt c0 tag using True by simp
    next
      case False
      then have "PATTERNS rest = None" by (simp add: PATTERNS_known)
      then show ?thesis
        unfolding spec_parse_def sp sr cnt c0 tag using False by simp
    qed
  qed
qed

text \<open>The scan stops at the first specification that \<^verbatim>\<open>_spec_parse\<close> refuses.\<close>

lemma rule_loop_first_error:
  "(rule_loop rule pat spec cts b = Inl e \<longleftrightarrow> first_error (scan_specs rule spec b) = Some e)
   \<and> ((\<exists>res. rule_loop rule pat spec cts b = Inr res) \<longleftrightarrow> first_error (scan_specs rule spec b) = None)"
proof (induction rule arbitrary: pat spec cts b)
  case Nil
  show ?case by simp
next
  case (Cons c cs)
  show ?case
  proof (cases "c = CHR ''}'' \<and> b")
    case False
    then show ?thesis using Cons.IH by auto
  next
    case True
    show ?thesis
    proof (cases "spec_parse spec")
      case (Inl e')
      with True show ?thesis by auto
    next
      case (Inr res)
      obtain name p cst where res: "res = (name, p, cst)" by (cases res)
      have step: "rule_loop (c # cs) pat spec cts b
                  = rule_loop cs (pat @ [p]) [] (cts(name \<mapsto> cst)) False"
        using True Inr res by simp
      have sc: "scan_specs (c # cs) spec b = spec # scan_specs cs [] False"
        using True by simp
      have fe: "first_error (spec # scan_specs cs [] False) = first_error (scan_specs cs [] False)"
        using Inr by simp
      show ?thesis
        unfolding step sc fe by (rule Cons.IH)
    qed
  qed
qed

lemma first_error_find:
  "first_error ss = Some e \<longleftrightarrow>
     (\<exists>s. find spec_offends ss = Some s
          \<and> e = (if sep_count s > 1 then ErrorPattern else KeyError TypeRegistry (type_tag s)))"
proof (induction ss)
  case Nil
  show ?case by simp
next
  case (Cons s ss)
  show ?case
  proof (cases "spec_offends s")
    case True
    then show ?thesis
      by (auto simp: spec_parse_split spec_offends_def)
  next
    case False
    then show ?thesis using Cons.IH
      by (simp add: spec_parse_split spec_offends_def)
  qed
qed

lemma rule_parse_error:
  "rule_parse rule = Inl e \<longleftrightarrow>
     (\<exists>s. find spec_offends (rule_specs rule) = Some s
          \<and> e = (if sep_count s > 1 then ErrorPattern else KeyError TypeRegistry (type_tag s)))"
  unfolding rule_parse_def rule_specs_def
  using rule_loop_first_error[of rule "[]" "[]" Map.empty False e] first_error_find
  by simp

text \<open>\<^verbatim>\<open>re.compile\<close> fails with \<^verbatim>\<open>re.error\<close> only (or leaves the fragment).\<close>

text \<open>The equations of \<open>parse_items\<close>, one for each kind of first character.\<close>

lemma parse_items_Nil: "parse_items seen [] = Inr []"
  by (simp add: parse_items.simps)

lemma parse_items_anchor:
  "c = CHR ''$'' \<or> c = CHR ''^'' \<Longrightarrow>
   parse_items seen (c # cs) =
     (if cs \<noteq> [] \<and> is_quant_char (hd cs)
      then Inl (if hd cs = CHR ''{'' then Unmodelled else ReError)
      else (case parse_items seen cs of
              Inl e \<Rightarrow> Inl e
            | Inr its \<Rightarrow> Inr ((if c = CHR ''$'' then Eol else Bol) # its)))"
  by (subst parse_items.simps) simp

lemma parse_items_group:
  "parse_items seen (CHR ''('' # cs) =
     (case parse_group seen cs of
        Inl e \<Rightarrow> Inl e
      | Inr (nm, as, rest) \<Rightarrow>
         (case parse_items (nm # seen) rest of
            Inl e \<Rightarrow> Inl e
          | Inr its \<Rightarrow> Inr (Group nm as # its)))"
  by (subst parse_items.simps) simp

lemma parse_items_close: "parse_items seen (CHR '')'' # cs) = Inl ReError"
  by (subst parse_items.simps) simp

lemma parse_items_atom:
  "c \<noteq> CHR ''$'' \<Longrightarrow> c \<noteq> CHR ''^'' \<Longrightarrow> c \<noteq> CHR ''('' \<Longrightarrow> c \<noteq> CHR '')'' \<Longrightarrow>
   parse_items seen (c # cs) =
     (case parse_atom (c # cs) of
        Inl e \<Rightarrow> Inl e
      | Inr (a, rest) \<Rightarrow>
         (case parse_items seen rest of
            Inl e \<Rightarrow> Inl e
          | Inr its \<Rightarrow> Inr (Single a # its)))"
  by (subst parse_items.simps) simp

lemma parse_class_err: "parse_class s = Inl e \<Longrightarrow> re_failure e"
  by (cases s) (auto simp: re_failure_def split: if_splits list.splits)

lemma parse_quant_err: "parse_quant s = Inl e \<Longrightarrow> re_failure e"
  by (auto simp: parse_quant_def re_failure_def split: if_splits list.splits)

lemma parse_atom_err: "parse_atom s = Inl e \<Longrightarrow> re_failure e"
  by (auto simp: parse_atom_def split: sum.splits prod.splits dest: parse_class_err parse_quant_err)

lemma parse_atoms_err: "parse_atoms s = Inl e \<Longrightarrow> re_failure e"
proof (induction s rule: parse_atoms.induct)
  case (1 s)
  show ?case
  proof (cases s)
    case Nil
    with "1.prems" show ?thesis by (simp add: parse_atoms.simps re_failure_def)
  next
    case (Cons c cs)
    show ?thesis
    proof (cases "c = CHR '')''")
      case True
      with Cons "1.prems" show ?thesis by (simp add: parse_atoms.simps)
    next
      case nc: False
      show ?thesis
      proof (cases "c = CHR ''('' \<or> c = CHR ''$'' \<or> c = CHR ''^'' \<or> c = CHR ''|''")
        case True
        with Cons nc "1.prems" show ?thesis by (simp add: parse_atoms.simps re_failure_def)
      next
        case nb: False
        show ?thesis
        proof (cases "parse_atom s")
          case (Inl e')
          with Cons nc nb "1.prems" have "e = e'" by (simp add: parse_atoms.simps)
          with Inl show ?thesis by (auto dest: parse_atom_err)
        next
          case (Inr res)
          obtain a rest where res: "res = (a, rest)" by (cases res)
          with Inr Cons nc nb "1.prems" have "parse_atoms rest = Inl e"
            by (subst (asm) parse_atoms.simps) (auto split: sum.splits)
          with "1.IH"[OF Cons nc nb Inr[unfolded res] refl] show ?thesis by simp
        qed
      qed
    qed
  qed
qed

lemma parse_group_err: "parse_group seen cs = Inl e \<Longrightarrow> re_failure e"
  by (auto simp: parse_group_def Let_def re_failure_def
           split: if_splits list.splits sum.splits dest: parse_atoms_err)

lemma parse_items_err: "parse_items seen s = Inl e \<Longrightarrow> re_failure e"
proof (induction seen s rule: parse_items.induct)
  case (1 seen s)
  show ?case
  proof (cases s)
    case Nil
    with "1.prems" show ?thesis by (simp add: parse_items_Nil)
  next
    case (Cons c cs)
    consider (anchor) "c = CHR ''$'' \<or> c = CHR ''^''"
      | (group) "\<not> (c = CHR ''$'' \<or> c = CHR ''^'')" "c = CHR ''(''"
      | (close) "c = CHR '')''"
      | (atom) "\<not> (c = CHR ''$'' \<or> c = CHR ''^'')" "c \<noteq> CHR ''(''" "c \<noteq> CHR '')''"
      by blast
    then show ?thesis
    proof cases
      case anchor
      show ?thesis
      proof (cases "cs \<noteq> [] \<and> is_quant_char (hd cs)")
        case True
        with "1.prems" Cons anchor show ?thesis
          by (auto simp: parse_items_anchor re_failure_def split: if_splits)
      next
        case False
        with "1.prems" Cons anchor have "parse_items seen cs = Inl e"
          by (auto simp: parse_items_anchor split: sum.splits)
        with "1.IH"(1)[OF Cons anchor False] show ?thesis .
      qed
    next
      case group
      show ?thesis
      proof (cases "parse_group seen cs")
        case (Inl e')
        with "1.prems" Cons group have "e = e'" by (simp add: parse_items_group)
        with Inl show ?thesis by (auto dest: parse_group_err)
      next
        case (Inr res)
        obtain nm as rest where res: "res = (nm, as, rest)" by (cases res)
        with Inr "1.prems" Cons group have "parse_items (nm # seen) rest = Inl e"
          by (auto simp: parse_items_group split: sum.splits)
        with "1.IH"(2)[OF Cons group Inr[unfolded res] refl refl] show ?thesis .
      qed
    next
      case close
      with "1.prems" Cons show ?thesis by (simp add: parse_items_close re_failure_def)
    next
      case atom
      show ?thesis
      proof (cases "parse_atom s")
        case (Inl e')
        with "1.prems" Cons atom have "e = e'" by (simp add: parse_items_atom)
        with Inl show ?thesis by (auto dest: parse_atom_err)
      next
        case (Inr res)
        obtain a rest where res: "res = (a, rest)" by (cases res)
        with Inr "1.prems" Cons atom have "parse_items seen rest = Inl e"
          by (auto simp: parse_items_atom split: sum.splits)
        with "1.IH"(3)[OF Cons atom Inr[unfolded res] refl] show ?thesis .
      qed
    qed
  qed
qed

lemma re_compile_err: "re_compile p = Inl e \<Longrightarrow> re_failure e"
  unfolding re_compile_def by (rule parse_items_err)

text \<open>Where the exceptions of registration and of matching come from.\<close>

lemma private_route_error:
  "private_route r rule ms h = Inl e \<longleftrightarrow>
     rule_parse rule = Inl e
     \<or> (\<exists>pat cts. rule_parse rule = Inr (pat, cts) \<and> re_compile pat = Inl e)"
  by (auto simp: private_route_def split: sum.splits)

lemma cast_groups_err:
  "cast_groups cts gd a = Inl e \<Longrightarrow> e \<noteq> ErrorPattern \<and> e \<noteq> KeyError TypeRegistry t"
proof (induction gd arbitrary: a)
  case Nil
  then show ?case by simp
next
  case (Cons kv gd)
  obtain k v where kv: "kv = (k, v)" by (cases kv)
  show ?case
  proof (cases "cts k")
    case None
    with Cons.prems kv show ?thesis by auto
  next
    case (Some c)
    show ?thesis
    proof (cases "apply_cast c v")
      case (Inl e')
      with Cons.prems kv Some have "e = e'" by simp
      with Inl show ?thesis
        by (cases c) (auto simp: py_int_def py_float_def Let_def split: if_splits list.splits prod.splits)
    next
      case (Inr x)
      with Cons.prems kv Some have "cast_groups cts gd (a(k \<mapsto> x)) = Inl e" by simp
      then show ?thesis by (rule Cons.IH)
    qed
  qed
qed

lemma match_routes_err:
  "match_routes r rts req = Inl e \<Longrightarrow> e \<noteq> ErrorPattern \<and> e \<noteq> KeyError TypeRegistry t"
proof (induction rts)
  case Nil
  then show ?case by simp
next
  case (Cons rt rts)
  then show ?case
    by (auto split: if_splits option.splits sum.splits dest: cast_groups_err)
qed

lemma Router_match_err:
  "Router_match r req = Inl e \<Longrightarrow> e \<noteq> ErrorPattern \<and> e \<noteq> KeyError TypeRegistry t"
  by (auto simp: Router_match_def domain_match_def re_failure_def
           split: sum.splits option.splits if_splits
           dest: match_routes_err re_compile_err)

text \<open>
  Claim C3.  Route rules are compiled when a route is registered: \<^verbatim>\<open>Router._route\<close>
  calls \<^verbatim>\<open>_rule_parse\<close>, which scans the rule from left to right and hands each
  brace-delimited specification to \<^verbatim>\<open>_spec_parse\<close> as its closing brace is read.
  The first specification of the scan that has more than one separator or names a
  tag outside \<open>str\<close>, \<open>word\<close>, \<open>any\<close>, \<open>int\<close>, \<open>float\<close> ends the registration:
  with \<^verbatim>\<open>Exception('error pattern')\<close> when it has more than one separator, with the
  \<^verbatim>\<open>KeyError\<close> of its tag, raised by \<^verbatim>\<open>PATTERNS[type]\<close>, otherwise; and
  registration raises these two for no other rule.  A rule all of whose
  specifications have at most one separator and a known tag raises neither.
  Matching a request raises neither: not \<^verbatim>\<open>Exception('error pattern')\<close>, and no
  \<^verbatim>\<open>KeyError\<close> of the type registry.
\<close>

theorem route_rule_errors:
  "(private_route r rule ms h = Inl ErrorPattern \<longleftrightarrow>
      (\<exists>s. find spec_offends (rule_specs rule) = Some s \<and> sep_count s > 1))
   \<and> (private_route r rule ms h = Inl (KeyError TypeRegistry t) \<longleftrightarrow>
      (\<exists>s. find spec_offends (rule_specs rule) = Some s \<and> sep_count s \<le> 1 \<and> type_tag s = t))
   \<and> ((\<forall>s \<in> set (rule_specs rule). sep_count s \<le> 1 \<and> type_tag s \<in> set known_tags)
        \<longrightarrow> private_route r rule ms h \<noteq> Inl ErrorPattern
            \<and> private_route r rule ms h \<noteq> Inl (KeyError TypeRegistry t))
   \<and> Router_match r req \<noteq> Inl ErrorPattern
   \<and> Router_match r req \<noteq> Inl (KeyError TypeRegistry t)"
proof -
  have no_re: "re_compile pat \<noteq> Inl ErrorPattern" "re_compile pat \<noteq> Inl (KeyError TypeRegistry t)" for pat
    using re_compile_err[of pat] by (auto simp: re_failure_def)
  have a: "private_route r rule ms h = Inl ErrorPattern \<longleftrightarrow>
      (\<exists>s. find spec_offends (rule_specs rule) = Some s \<and> sep_count s > 1)"
    unfolding private_route_error rule_parse_error using no_re by auto
  have b: "private_route r rule ms h = Inl (KeyError TypeRegistry t) \<longleftrightarrow>
      (\<exists>s. find spec_offends (rule_specs rule) = Some s \<and> sep_count s \<le> 1 \<and> type_tag s = t)"
  proof -
    have "rule_parse rule = Inl (KeyError TypeRegistry t) \<longleftrightarrow>
      (\<exists>s. find spec_offends (rule_specs rule) = Some s \<and> sep_count s \<le> 1 \<and> type_tag s = t)"
    proof
      assume "rule_parse rule = Inl (KeyError TypeRegistry t)"
      then obtain s where s: "find spec_offends (rule_specs rule) = Some s"
        and e: "KeyError TypeRegistry t
                = (if sep_count s > 1 then ErrorPattern else KeyError TypeRegistry (type_tag s))"
        unfolding rule_parse_error by blast
      from e have "sep_count s \<le> 1 \<and> type_tag s = t"
        by (cases "sep_count s > 1") auto
      with s show "\<exists>s. find spec_offends (rule_specs rule) = Some s \<and> sep_count s \<le> 1 \<and> type_tag s = t"
        by blast
    next
      assume "\<exists>s. find spec_offends (rule_specs rule) = Some s \<and> sep_count s \<le> 1 \<and> type_tag s = t"
      then obtain s where "find spec_offends (rule_specs rule) = Some s" "sep_count s \<le> 1" "type_tag s = t"
        by blast
      then have "\<exists>s. find spec_offends (rule_specs rule) = Some s
          \<and> KeyError TypeRegistry t
            = (if sep_count s > 1 then ErrorPattern else KeyError TypeRegistry (type_tag s))"
        by auto
      then show "rule_parse rule = Inl (KeyError TypeRegistry t)"
        unfolding rule_parse_error .
    qed
    then show ?thesis
      unfolding private_route_error using no_re by auto
  qed
  have c: "private_route r rule ms h \<noteq> Inl ErrorPattern
           \<and> private_route r rule ms h \<noteq> Inl (KeyError TypeRegistry t)"
    if "\<forall>s \<in> set (rule_specs rule). sep_count s \<le> 1 \<and> type_tag s \<in> set known_tags"
  proof -
    from that have "find spec_offends (rule_specs rule) = None"
      by (auto simp: find_None_iff spec_offends_def)
    then show ?thesis unfolding a b by simp
  qed
  have d: "Router_match r req \<noteq> Inl ErrorPattern"
    "Router_match r req \<noteq> Inl (KeyError TypeRegistry t)"
    using Router_match_err[of r req _ t] by auto
  from a b c d show ?thesis by blast
qed

theorem route_rule_errors_witness:
  "private_route empty_router ''/x/{a:b:c}'' default_methods (say ''x'') = Inl ErrorPattern
   \<and> private_route empty_router ''/x/{a:zzz}'' default_methods (say ''x'')
       = Inl (KeyError TypeRegistry ''zzz'')
   \<and> private_route empty_router ''/{a:zzz}/{b:c:d}'' default_methods (say ''x'')
       = Inl (KeyError TypeRegistry ''zzz'')
   \<and> private_route empty_router ''/{b:c:d}/{a:zzz}'' default_methods (say ''x'') = Inl ErrorPattern
   \<and> private_route empty_router ''/x/{id:int}'' default_methods (say ''x'') \<noteq> Inl ErrorPattern
   \<and> private_route empty_router ''/x/{id:int}'' default_methods (say ''x'')
       \<noteq> Inl (KeyError TypeRegistry ''int'')"
proof -
  have 1: "find spec_offends (rule_specs ''/x/{a:b:c}'') = Some ''a:b:c''" "sep_count ''a:b:c'' > 1"
    by (simp_all add: rule_specs_def spec_offends_def sep_count_def)
  have 2: "find spec_offends (rule_specs ''/x/{a:zzz}'') = Some ''a:zzz''" "sep_count ''a:zzz'' \<le> 1"
    "type_tag ''a:zzz'' = ''zzz''"
    by (simp_all add: rule_specs_def spec_offends_def sep_count_def type_tag_def known_tags_def)
  have 3: "\<forall>s \<in> set (rule_specs ''/x/{id:int}''). sep_count s \<le> 1 \<and> type_tag s \<in> set known_tags"
    by (simp add: rule_specs_def sep_count_def type_tag_def known_tags_def)
  have 4: "find spec_offends (rule_specs ''/{a:zzz}/{b:c:d}'') = Some ''a:zzz''"
    by (simp add: rule_specs_def spec_offends_def sep_count_def type_tag_def known_tags_def)
  have 5: "find spec_offends (rule_specs ''/{b:c:d}/{a:zzz}'') = Some ''b:c:d''" "sep_count ''b:c:d'' > 1"
    by (simp_all add: rule_specs_def spec_offends_def sep_count_def)
  have a: "private_route empty_router ''/x/{a:b:c}'' default_methods (say ''x'') = Inl ErrorPattern"
    using route_rule_errors[of empty_router "''/x/{a:b:c}''" default_methods "say ''x''" undefined undefined,
        THEN conjunct1] 1
    by blast
  have b: "private_route empty_router ''/x/{a:zzz}'' default_methods (say ''x'')
       = Inl (KeyError TypeRegistry ''zzz'')"
    using route_rule_errors[of empty_router "''/x/{a:zzz}''" default_methods "say ''x''" "''zzz''" undefined,
        THEN conjunct2, THEN conjunct1] 2
    by blast
  have c: "private_route empty_router ''/{a:zzz}/{b:c:d}'' default_methods (say ''x'')
       = Inl (KeyError TypeRegistry ''zzz'')"
    using route_rule_errors[of empty_router "''/{a:zzz}/{b:c:d}''" default_methods "say ''x''" "''zzz''" undefined,
        THEN conjunct2, THEN conjunct1] 4 2(2,3)
    by blast
  have d: "private_route empty_router ''/{b:c:d}/{a:zzz}'' default_methods (say ''x'') = Inl ErrorPattern"
    using route_rule_errors[of empty_router "''/{b:c:d}/{a:zzz}''" default_methods "say ''x''" undefined undefined,
        THEN conjunct1] 5
    by blast
  have e: "private_route empty_router ''/x/{id:int}'' default_methods (say ''x'') \<noteq> Inl ErrorPattern
       \<and> private_route empty_router ''/x/{id:int}'' default_methods (say ''x'')
           \<noteq> Inl (KeyError TypeRegistry ''int'')"
    using route_rule_errors[of empty_router "''/x/{id:int}''" default_methods "say ''x''" "''int''" undefined,
        THEN conjunct2, THEN conjunct2, THEN conjunct1] 3
    by blast
  from a b c d e show ?thesis by blast
qed

section \<open>The filter chain\<close>

text \<open>Each loop hands the result of one hook to the next.\<close>

lemma run_before_append:
  "run_before (fs1 @ fs2) ctx req w =
     (case run_before fs1 ctx req w of
        (Inl e, w') \<Rightarrow> (Inl e, w')
      | (Inr r, w') \<Rightarrow> run_before fs2 ctx r w')"
  by (induction fs1 arbitrary: req w) (auto split: option.splits prod.splits sum.splits)

lemma run_after_append:
  "run_after (fs1 @ fs2) ctx req resp w =
     (case run_after fs1 ctx req resp w of
        (Inl e, w') \<Rightarrow> (Inl e, w')
      | (Inr r, w') \<Rightarrow> run_after fs2 ctx req r w')"
  by (induction fs1 arbitrary: resp w) (auto split: option.splits prod.splits sum.splits)

text \<open>A loop over wrapped filters does what the loop does and logs each hook once.\<close>

lemma run_before_traced:
  "run_before (map snd ifs) ctx req w = (Inr req', w') \<Longrightarrow>
   run_before (map traced_filter ifs) ctx req (log, w)
     = (Inr req', (log @ map (EvBefore \<circ> fst) ifs, w'))"
proof (induction ifs arbitrary: req w log)
  case Nil
  then show ?case by simp
next
  case (Cons p ifs)
  from Cons.prems obtain hook where hook: "before_request (snd p) = Some hook"
    by (auto split: option.splits)
  with Cons.prems obtain r1 w1 where step: "hook ctx req w = (Inr r1, w1)"
    and rest: "run_before (map snd ifs) ctx r1 w1 = (Inr req', w')"
    by (auto split: prod.splits sum.splits)
  from Cons.IH[OF rest, of "log @ [EvBefore (fst p)]"] hook step show ?case
    by (simp add: traced_filter_def traced_before_def)
qed

lemma run_after_traced:
  "run_after (map snd ifs) ctx req resp w = (Inr resp', w') \<Longrightarrow>
   run_after (map traced_filter ifs) ctx req resp (log, w)
     = (Inr resp', (log @ map (EvAfter \<circ> fst) ifs, w'))"
proof (induction ifs arbitrary: resp w log)
  case Nil
  then show ?case by simp
next
  case (Cons p ifs)
  from Cons.prems obtain hook where hook: "after_request (snd p) = Some hook"
    by (auto split: option.splits)
  with Cons.prems obtain r1 w1 where step: "hook ctx req resp w = (Inr r1, w1)"
    and rest: "run_after (map snd ifs) ctx req r1 w1 = (Inr resp', w')"
    by (auto split: prod.splits sum.splits)
  from Cons.IH[OF rest, of "log @ [EvAfter (fst p)]"] hook step show ?case
    by (simp add: traced_filter_def traced_after_def)
qed

text \<open>
  A loop run over hooks of which each takes what the one before returned: \<open>rq i\<close>
  and \<open>wb i\<close> are the request and the world that the hook of index \<open>i\<close> is given.
\<close>

lemma run_before_chain:
  "\<forall>i < length fls. \<exists>hook. before_request (fls ! i) = Some hook
       \<and> hook ctx (rq i) (wb i) = (Inr (rq (Suc i)), wb (Suc i))
   \<Longrightarrow> run_before fls ctx (rq 0) (wb 0) = (Inr (rq (length fls)), wb (length fls))"
proof (induction fls arbitrary: rq wb)
  case Nil
  show ?case by simp
next
  case (Cons fl fls)
  from Cons.prems[rule_format, of 0] obtain hook where hook: "before_request fl = Some hook"
    and step: "hook ctx (rq 0) (wb 0) = (Inr (rq (Suc 0)), wb (Suc 0))"
    by auto
  have "\<forall>i < length fls. \<exists>hook. before_request (fls ! i) = Some hook
       \<and> hook ctx ((rq \<circ> Suc) i) ((wb \<circ> Suc) i) = (Inr ((rq \<circ> Suc) (Suc i)), (wb \<circ> Suc) (Suc i))"
  proof (intro allI impI)
    fix i assume "i < length fls"
    then have "Suc i < length (fl # fls)" by simp
    from Cons.prems[rule_format, OF this]
    show "\<exists>hook. before_request (fls ! i) = Some hook
       \<and> hook ctx ((rq \<circ> Suc) i) ((wb \<circ> Suc) i) = (Inr ((rq \<circ> Suc) (Suc i)), (wb \<circ> Suc) (Suc i))"
      by simp
  qed
  from Cons.IH[OF this] have "run_before fls ctx (rq (Suc 0)) (wb (Suc 0))
      = (Inr (rq (Suc (length fls))), wb (Suc (length fls)))"
    by simp
  with hook step show ?case by simp
qed

lemma run_after_chain:
  "\<forall>j < length gs. \<exists>hook. after_request (gs ! j) = Some hook
       \<and> hook ctx req (rs j) (wa j) = (Inr (rs (Suc j)), wa (Suc j))
   \<Longrightarrow> run_after gs ctx req (rs 0) (wa 0) = (Inr (rs (length gs)), wa (length gs))"
proof (induction gs arbitrary: rs wa)
  case Nil
  show ?case by simp
next
  case (Cons g gs)
  from Cons.prems[rule_format, of 0] obtain hook where hook: "after_request g = Some hook"
    and step: "hook ctx req (rs 0) (wa 0) = (Inr (rs (Suc 0)), wa (Suc 0))"
    by auto
  have "\<forall>j < length gs. \<exists>hook. after_request (gs ! j) = Some hook
       \<and> hook ctx req ((rs \<circ> Suc) j) ((wa \<circ> Suc) j) = (Inr ((rs \<circ> Suc) (Suc j)), (wa \<circ> Suc) (Suc j))"
  proof (intro allI impI)
    fix j assume "j < length gs"
    then have "Suc j < length (g # gs)" by simp
    from Cons.prems[rule_format, OF this]
    show "\<exists>hook. after_request (gs ! j) = Some hook
       \<and> hook ctx req ((rs \<circ> Suc) j) ((wa \<circ> Suc) j) = (Inr ((rs \<circ> Suc) (Suc j)), (wa \<circ> Suc) (Suc j))"
      by simp
  qed
  from Cons.IH[OF this] have "run_after gs ctx req (rs (Suc 0)) (wa (Suc 0))
      = (Inr (rs (Suc (length gs))), wa (Suc (length gs)))"
    by simp
  with hook step show ?case by simp
qed

lemma run_after_rev_chain:
  assumes "\<forall>i < length fls. \<exists>hook. after_request (fls ! i) = Some hook
       \<and> hook ctx req (rs (Suc i)) (wa (Suc i)) = (Inr (rs i), wa i)"
  shows "run_after (rev fls) ctx req (rs (length fls)) (wa (length fls)) = (Inr (rs 0), wa 0)"
proof -
  let ?n = "length fls"
  have "\<forall>j < length (rev fls). \<exists>hook. after_request (rev fls ! j) = Some hook
       \<and> hook ctx req ((\<lambda>j. rs (?n - j)) j) ((\<lambda>j. wa (?n - j)) j)
           = (Inr ((\<lambda>j. rs (?n - j)) (Suc j)), (\<lambda>j. wa (?n - j)) (Suc j))"
  proof (intro allI impI)
    fix j assume "j < length (rev fls)"
    then have j: "j < ?n" by simp
    then have i: "?n - Suc j < ?n" and s: "Suc (?n - Suc j) = ?n - j" by simp_all
    from assms[rule_format, OF i] j
    show "\<exists>hook. after_request (rev fls ! j) = Some hook
       \<and> hook ctx req ((\<lambda>j. rs (?n - j)) j) ((\<lambda>j. wa (?n - j)) j)
           = (Inr ((\<lambda>j. rs (?n - j)) (Suc j)), (\<lambda>j. wa (?n - j)) (Suc j))"
      by (simp add: rev_nth s)
  qed
  from run_after_chain[OF this] show ?thesis by simp
qed

text \<open>The wrapped handler, and the log it leaves when every hook is wrapped to log.\<close>

lemma apply_filter_traced:
  assumes before: "run_before fls ctx req w = (Inr req', w1)"
      and handle: "h ctx req' w1 = (Inr resp, w2)"
      and after: "run_after (rev fls) ctx req' resp w2 = (Inr resp', w3)"
  shows "apply_filter fls h ctx req w = (Inr resp', w3)
         \<and> apply_filter (traced_filters fls) (traced_handler h) ctx req ([], w)
             = (Inr resp',
                (map EvBefore [0..<length fls] @ [EvHandler] @ map EvAfter (rev [0..<length fls]),
                 w3))"
proof -
  let ?ifs = "enumerate 0 fls"
  have snd: "map snd ?ifs = fls" and fst: "map fst ?ifs = [0..<length fls]"
    by (simp_all add: enumerate_eq_zip)
  have ev_b: "map (EvBefore \<circ> fst) ?ifs = map EvBefore [0..<length fls]"
    unfolding map_map[symmetric] fst ..
  have ev_a: "map (EvAfter \<circ> fst) (rev ?ifs) = map EvAfter (rev [0..<length fls])"
    unfolding map_map[symmetric] rev_map[symmetric] fst ..
  have plain: "apply_filter fls h ctx req w = (Inr resp', w3)"
    using assms by (simp add: apply_filter_def)
  have "run_before (map snd ?ifs) ctx req w = (Inr req', w1)"
    using before by (simp only: snd)
  from run_before_traced[OF this, of "[]"]
  have b: "run_before (traced_filters fls) ctx req ([], w)
           = (Inr req', (map EvBefore [0..<length fls], w1))"
    by (simp only: traced_filters_def ev_b append_Nil)
  have hh: "traced_handler h ctx req' (map EvBefore [0..<length fls], w1)
           = (Inr resp, (map EvBefore [0..<length fls] @ [EvHandler], w2))"
    using handle by (simp add: traced_handler_def)
  have "map snd (rev ?ifs) = rev fls"
    unfolding rev_map[symmetric] snd ..
  with after have "run_after (map snd (rev ?ifs)) ctx req' resp w2 = (Inr resp', w3)"
    by simp
  from run_after_traced[OF this, of "map EvBefore [0..<length fls] @ [EvHandler]"]
  have a: "run_after (rev (traced_filters fls)) ctx req' resp
             (map EvBefore [0..<length fls] @ [EvHandler], w2)
           = (Inr resp',
              (map EvBefore [0..<length fls] @ [EvHandler] @ map EvAfter (rev [0..<length fls]), w3))"
    by (simp only: traced_filters_def rev_map ev_a append_assoc)
  have "apply_filter (traced_filters fls) (traced_handler h) ctx req ([], w)
             = (Inr resp',
                (map EvBefore [0..<length fls] @ [EvHandler] @ map EvAfter (rev [0..<length fls]),
                 w3))"
    by (simp add: apply_filter_def b hh a)
  with plain show ?thesis by simp
qed

text \<open>
  Claim C4.  Let the filters \<open>fls\<close> be registered in the order of the list, and let
  requests \<open>rq 0\<close>, ..., \<open>rq n\<close> and responses \<open>rs n\<close>, ..., \<open>rs 0\<close> be such that
  \<^item> the \<^verbatim>\<open>before_request\<close> of filter \<open>i\<close>, given \<open>rq i\<close>, returns \<open>rq (i + 1)\<close>;
  \<^item> the handler, given \<open>rq n\<close>, the request the last filter returned, returns \<open>rs n\<close>;
  \<^item> the \<^verbatim>\<open>after_request\<close> of filter \<open>i\<close>, given \<open>rq n\<close> and the response
    \<open>rs (i + 1)\<close>, returns \<open>rs i\<close>
  (\<open>wb\<close> and \<open>wa\<close> are the states of the world between these calls).  Then the
  wrapped handler, given \<open>rq 0\<close>, returns \<open>rs 0\<close>: each filter's
  \<^verbatim>\<open>before_request\<close> is run on the request the filter registered before it
  returned, the handler on the request of the last, and each filter's
  \<^verbatim>\<open>after_request\<close> on the response the filter registered after it returned, the
  last on the handler's.  With every hook wrapped to log its call, the log is: the
  before hooks of filter 0 up to filter \<open>n - 1\<close>, the handler, the after hooks of
  filter \<open>n - 1\<close> down to filter 0.
\<close>

theorem filter_chain_order:
  assumes before: "\<forall>i < length fls. \<exists>hook. before_request (fls ! i) = Some hook
            \<and> hook ctx (rq i) (wb i) = (Inr (rq (Suc i)), wb (Suc i))"
      and handle: "h ctx (rq (length fls)) (wb (length fls)) = (Inr (rs (length fls)), wa (length fls))"
      and after: "\<forall>i < length fls. \<exists>hook. after_request (fls ! i) = Some hook
            \<and> hook ctx (rq (length fls)) (rs (Suc i)) (wa (Suc i)) = (Inr (rs i), wa i)"
  shows "apply_filter fls h ctx (rq 0) (wb 0) = (Inr (rs 0), wa 0)
         \<and> apply_filter (traced_filters fls) (traced_handler h) ctx (rq 0) ([], wb 0)
             = (Inr (rs 0),
                (map EvBefore [0..<length fls] @ [EvHandler] @ map EvAfter (rev [0..<length fls]),
                 wa 0))"
proof -
  have b: "run_before fls ctx (rq 0) (wb 0) = (Inr (rq (length fls)), wb (length fls))"
    using before by (rule run_before_chain)
  have a: "run_after (rev fls) ctx (rq (length fls)) (rs (length fls)) (wa (length fls))
           = (Inr (rs 0), wa 0)"
    using after by (rule run_after_rev_chain)
  from b handle a show ?thesis by (rule apply_filter_traced)
qed

theorem filter_chain_order_witness:
  "apply_filter [tag_filter ''1'', tag_filter ''2''] echo_path () (get_request ''/x'') []
     = (Inr ''/x1221'',
        [''before 1'', ''before 2'', ''handler'', ''after 2 of /x12'', ''after 1 of /x12''])
   \<and> apply_filter (traced_filters [tag_filter ''1'', tag_filter ''2'']) (traced_handler echo_path) ()
         (get_request ''/x'') ([], [])
     = (Inr ''/x1221'',
        ([EvBefore 0, EvBefore 1, EvHandler, EvAfter 1, EvAfter 0],
         [''before 1'', ''before 2'', ''handler'', ''after 2 of /x12'', ''after 1 of /x12'']))"
proof -
  let ?fls = "[tag_filter ''1'', tag_filter ''2'']"
  let ?rq = "\<lambda>i. [get_request ''/x'', get_request ''/x1'', get_request ''/x12''] ! i"
  let ?wb = "\<lambda>i. [[], [''before 1''], [''before 1'', ''before 2'']] ! i"
  let ?rs = "\<lambda>i. [''/x1221'', ''/x122'', ''/x12''] ! i"
  let ?wa = "\<lambda>i. [[''before 1'', ''before 2'', ''handler'', ''after 2 of /x12'', ''after 1 of /x12''],
                  [''before 1'', ''before 2'', ''handler'', ''after 2 of /x12''],
                  [''before 1'', ''before 2'', ''handler'']] ! i"
  have b: "\<forall>i < length ?fls. \<exists>hook. before_request (?fls ! i) = Some hook
            \<and> hook () (?rq i) (?wb i) = (Inr (?rq (Suc i)), ?wb (Suc i))"
    by (simp add: tag_filter_def get_request_def All_less_Suc)
  have h: "echo_path () (?rq (length ?fls)) (?wb (length ?fls))
           = (Inr (?rs (length ?fls)), ?wa (length ?fls))"
    by (simp add: echo_path_def get_request_def)
  have a: "\<forall>i < length ?fls. \<exists>hook. after_request (?fls ! i) = Some hook
            \<and> hook () (?rq (length ?fls)) (?rs (Suc i)) (?wa (Suc i)) = (Inr (?rs i), ?wa i)"
    by (simp add: tag_filter_def get_request_def All_less_Suc)
  from filter_chain_order[of ?fls "()" ?rq ?wb echo_path ?rs ?wa, OF b h a]
  show ?thesis
    by simp
qed

section \<open>Rules with one parameter\<close>

text \<open>The scan of a rule made of plain characters around one specification.\<close>

lemma id_char_not_special:
  "is_id_continue c \<Longrightarrow> c \<noteq> CHR '':'' \<and> c \<noteq> CHR ''}'' \<and> c \<noteq> CHR ''>''"
  by (auto simp: is_id_continue_def is_id_start_def is_digit_def)

lemma identifier_chars:
  assumes "is_identifier nm"
  shows "CHR '':'' \<notin> set nm" "CHR ''}'' \<notin> set nm" "CHR ''>'' \<notin> set nm" "nm \<noteq> []"
proof -
  from assms obtain c cs where nm: "nm = c # cs" "is_id_start c" "list_all is_id_continue cs"
    by (auto simp: is_identifier_def split: list.splits)
  then have "\<forall>x \<in> set nm. is_id_continue x"
    by (auto simp: is_id_continue_def list_all_iff)
  then show "CHR '':'' \<notin> set nm" "CHR ''}'' \<notin> set nm" "CHR ''>'' \<notin> set nm"
    using id_char_not_special by blast+
  from nm show "nm \<noteq> []" by simp
qed

lemma rule_loop_plain:
  "list_all plain_char lits \<Longrightarrow>
   rule_loop (lits @ rest) pat spec cts False
     = rule_loop rest (pat @ map (\<lambda>c. [c]) lits) spec cts False"
  by (induction lits arbitrary: pat) (auto simp: plain_char_def)

lemma rule_loop_spec:
  "CHR ''}'' \<notin> set nm \<Longrightarrow>
   rule_loop (nm @ CHR ''}'' # rest) pat spec cts True
     = (case spec_parse (spec @ nm) of
          Inl e \<Rightarrow> Inl e
        | Inr (name, p, cst) \<Rightarrow> rule_loop rest (pat @ [p]) [] (cts(name \<mapsto> cst)) False)"
  by (induction nm arbitrary: spec) auto

lemma concat_singletons: "concat (map (\<lambda>c. [c]) xs) = xs"
  by (induction xs) auto

lemma rule_parse_one_param:
  assumes "list_all plain_char pre" "list_all plain_char suf" "CHR ''}'' \<notin> set sp"
    and "spec_parse sp = Inr (name, p, cst)"
  shows "rule_parse (pre @ ''{'' @ sp @ ''}'' @ suf) = Inr (pre @ p @ suf @ ''$'', [name \<mapsto> cst])"
proof -
  have "rule_parse (pre @ ''{'' @ sp @ ''}'' @ suf)
        = rule_loop (CHR ''{'' # sp @ CHR ''}'' # suf) (map (\<lambda>c. [c]) pre) [] Map.empty False"
    using rule_loop_plain[OF assms(1), of "''{'' @ sp @ ''}'' @ suf" "[]" "[]" Map.empty]
    by (simp add: rule_parse_def)
  also have "\<dots> = rule_loop (sp @ CHR ''}'' # suf) (map (\<lambda>c. [c]) pre) [] Map.empty True"
    by simp
  also have "\<dots> = rule_loop suf (map (\<lambda>c. [c]) pre @ [p]) [] [name \<mapsto> cst] False"
    using rule_loop_spec[OF assms(3), of suf "map (\<lambda>c. [c]) pre" "[]" Map.empty] assms(4)
    by simp
  also have "\<dots> = rule_loop [] (map (\<lambda>c. [c]) pre @ [p] @ map (\<lambda>c. [c]) suf) [] [name \<mapsto> cst] False"
    using rule_loop_plain[OF assms(2), of "[]" "map (\<lambda>c. [c]) pre @ [p]" "[]" "[name \<mapsto> cst]"]
    by simp
  also have "\<dots> = Inr (pre @ p @ suf @ ''$'', [name \<mapsto> cst])"
    by (simp add: concat_singletons)
  finally show ?thesis .
qed

lemma spec_parse_default:
  assumes "CHR '':'' \<notin> set nm"
  shows "spec_parse nm = Inr (nm, ''(?P<'' @ nm @ ''>[^/].+)'', Cast_str)"
proof -
  from assms have "sep_count nm = 0" "type_tag nm = ''str''" "param_name nm = nm"
    by (auto simp: sep_count_zero type_tag_def param_name_def takeWhile_eq_all_conv)
  then show ?thesis
    by (simp add: spec_parse_split known_tags_def PATTERNS_def CASTS_def)
qed

lemma spec_parse_word:
  assumes "CHR '':'' \<notin> set nm"
  shows "spec_parse (nm @ '':word'') = Inr (nm, ''(?P<'' @ nm @ ''>'' @ [bslash, CHR ''w'', CHR ''+''] @ '')'', Cast_str)"
proof -
  from assms have t: "takeWhile (\<lambda>c. c \<noteq> CHR '':'') (nm @ '':word'') = nm"
    by (induction nm) auto
  from assms have d: "dropWhile (\<lambda>c. c \<noteq> CHR '':'') (nm @ '':word'') = '':word''"
    by (induction nm) auto
  from assms have "sep_count (nm @ '':word'') = 1"
    using sep_count_zero[of nm] by (simp add: sep_count_def)
  moreover have "type_tag (nm @ '':word'') = ''word''"
    by (simp add: type_tag_def d)
  moreover have "param_name (nm @ '':word'') = nm"
    by (simp add: param_name_def t)
  ultimately show ?thesis
    by (simp add: spec_parse_split known_tags_def PATTERNS_def CASTS_def)
qed

text \<open>Parsing the pattern of such a rule: literal runs and one named group.\<close>

lemma parse_atoms_close: "parse_atoms (CHR '')'' # cs) = Inr ([], cs)"
  by (subst parse_atoms.simps) simp

lemma parse_atoms_step:
  "c \<noteq> CHR '')'' \<Longrightarrow> c \<noteq> CHR ''('' \<Longrightarrow> c \<noteq> CHR ''$'' \<Longrightarrow> c \<noteq> CHR ''^'' \<Longrightarrow> c \<noteq> CHR ''|'' \<Longrightarrow>
   parse_atoms (c # cs) =
     (case parse_atom (c # cs) of
        Inl e \<Rightarrow> Inl e
      | Inr (a, rest) \<Rightarrow>
         (case parse_atoms rest of
            Inl e \<Rightarrow> Inl e
          | Inr (as, rest') \<Rightarrow> Inr (a # as, rest')))"
  by (subst parse_atoms.simps) simp

lemma parse_atoms_str:
  "parse_atoms (''[^/].+)'' @ rest) = Inr ([Atom (NoneOf ''/'') One, Atom Dot Plus], rest)"
  by (simp add: parse_atoms_step parse_atoms_close parse_atom_def parse_quant_def
        is_quant_char_def bslash_def)

lemma parse_atoms_word:
  "parse_atoms ([bslash, CHR ''w'', CHR ''+''] @ '')'' @ rest) = Inr ([Atom Word Plus], rest)"
  by (simp add: parse_atoms_step parse_atoms_close parse_atom_def parse_quant_def
        is_quant_char_def bslash_def)

lemma parse_atom_plain:
  assumes "plain_char c" "cs = [] \<or> \<not> is_quant_char (hd cs)"
  shows "parse_atom (c # cs) = Inr (Atom (Lit c) One, cs)"
proof -
  from assms(1) have "parse_class (c # cs) = Inr (Lit c, cs)"
    by (simp add: plain_char_def)
  moreover from assms(2) have "parse_quant cs = Inr (One, cs)"
    by (cases cs) (auto simp: parse_quant_def is_quant_char_def)
  ultimately show ?thesis by (simp add: parse_atom_def)
qed

lemma plain_not_quant: "plain_char c \<Longrightarrow> \<not> is_quant_char c"
  by (auto simp: plain_char_def is_quant_char_def)

lemma parse_items_plain:
  "list_all plain_char lits \<Longrightarrow> rest = [] \<or> \<not> is_quant_char (hd rest) \<Longrightarrow>
   parse_items seen (lits @ rest) =
     (case parse_items seen rest of
        Inl e \<Rightarrow> Inl e
      | Inr its \<Rightarrow> Inr (map lit lits @ its))"
proof (induction lits)
  case Nil
  show ?case by (simp split: sum.splits)
next
  case (Cons c lits)
  then have pc: "plain_char c" and pl: "list_all plain_char lits" by simp_all
  have nq: "lits @ rest = [] \<or> \<not> is_quant_char (hd (lits @ rest))"
  proof (cases lits)
    case Nil
    with Cons.prems(2) show ?thesis by simp
  next
    case (Cons d ds)
    with pl have "plain_char d" by simp
    with Cons show ?thesis by (simp add: plain_not_quant)
  qed
  from pc have "c \<noteq> CHR ''$''" "c \<noteq> CHR ''^''" "c \<noteq> CHR ''(''" "c \<noteq> CHR '')''"
    by (auto simp: plain_char_def)
  then have "parse_items seen ((c # lits) @ rest)
             = (case parse_items seen (lits @ rest) of
                  Inl e \<Rightarrow> Inl e
                | Inr its \<Rightarrow> Inr (lit c # its))"
    using parse_atom_plain[OF pc nq] by (simp add: parse_items_atom lit_def split: sum.splits)
  also have "\<dots> = (case parse_items seen rest of
                      Inl e \<Rightarrow> Inl e
                    | Inr its \<Rightarrow> Inr (map lit (c # lits) @ its))"
    using Cons.IH[OF pl Cons.prems(2)] by (simp split: sum.splits)
  finally show ?case .
qed

lemma parse_group_named:
  assumes "is_identifier nm" "nm \<notin> set seen"
    and "parse_atoms (frag @ '')'' @ rest) = Inr (as, rest)"
    and "rest = [] \<or> \<not> is_quant_char (hd rest)"
  shows "parse_group seen (''?P<'' @ nm @ ''>'' @ frag @ '')'' @ rest) = Inr (nm, as, rest)"
proof -
  from identifier_chars(3)[OF assms(1)]
  have t: "takeWhile (\<lambda>x. x \<noteq> CHR ''>'') (nm @ CHR ''>'' # tl) = nm"
    and d: "dropWhile (\<lambda>x. x \<noteq> CHR ''>'') (nm @ CHR ''>'' # tl) = CHR ''>'' # tl" for tl
    by (induction nm) auto
  show ?thesis
    using assms by (simp add: parse_group_def t d)
qed

lemma parse_items_one_param:
  assumes "list_all plain_char pre" "list_all plain_char suf" "is_identifier nm"
    and "\<And>rest. parse_atoms (frag @ '')'' @ rest) = Inr (as, rest)"
  shows "re_compile (pre @ (''(?P<'' @ nm @ ''>'' @ frag @ '')'') @ suf @ ''$'')
         = Inr (map lit pre @ [Group nm as] @ map lit suf @ [Eol])"
proof -
  have e: "parse_items [nm] ''$'' = Inr [Eol]"
    by (simp add: parse_items_anchor parse_items_Nil)
  have s: "parse_items [nm] (suf @ ''$'') = Inr (map lit suf @ [Eol])"
    using parse_items_plain[OF assms(2), of "''$''" "[nm]"] e
    by (simp add: is_quant_char_def)
  have nq: "suf @ ''$'' = [] \<or> \<not> is_quant_char (hd (suf @ ''$''))"
  proof (cases suf)
    case Nil
    then show ?thesis by (simp add: is_quant_char_def)
  next
    case (Cons d ds)
    with assms(2) have "plain_char d" by simp
    with Cons show ?thesis by (simp add: plain_not_quant)
  qed
  have g: "parse_group [] (''?P<'' @ nm @ ''>'' @ frag @ '')'' @ suf @ ''$'') = Inr (nm, as, suf @ ''$'')"
    using parse_group_named[OF assms(3) _ assms(4) nq, of "[]"] by simp
  have "parse_items [] (CHR ''('' # ''?P<'' @ nm @ ''>'' @ frag @ '')'' @ suf @ ''$'')
        = Inr (Group nm as # map lit suf @ [Eol])"
    by (simp only: parse_items_group g s sum.case prod.case)
  then have "parse_items [] ((''(?P<'' @ nm @ ''>'' @ frag @ '')'') @ suf @ ''$'')
        = Inr ([Group nm as] @ map lit suf @ [Eol])"
    by simp
  with parse_items_plain[OF assms(1), of "(''(?P<'' @ nm @ ''>'' @ frag @ '')'') @ suf @ ''$''" "[]"]
  show ?thesis
    by (simp add: re_compile_def is_quant_char_def)
qed

text \<open>Matching: literal runs, and what a greedy repetition leaves over.\<close>

lemma startswith_length: "startswith s p \<Longrightarrow> length p \<le> length s"
  by (induction s p rule: startswith.induct) auto

lemma startswith_append: "startswith (p @ s) p"
  by (induction p) auto

lemma startswith_self: "startswith s s"
  by (induction s) auto

lemma concat_map_flat:
  "concat (map f (concat xss)) = concat (map (\<lambda>xs. concat (map f xs)) xss)"
  by (induction xss) auto

lemma m_items_append:
  "m_items n0 (is1 @ is2) st = concat (map (m_items n0 is2) (m_items n0 is1 st))"
proof (induction is1 arbitrary: st)
  case Nil
  show ?case by simp
next
  case (Cons i is1)
  have "m_items n0 (is1 @ is2) = (\<lambda>x. concat (map (m_items n0 is2) (m_items n0 is1 x)))"
    by (rule ext) (rule Cons.IH)
  then have "m_items n0 ((i # is1) @ is2) st
        = concat (map (\<lambda>x. concat (map (m_items n0 is2) (m_items n0 is1 x))) (m_item n0 i st))"
    by simp
  also have "\<dots> = concat (map (m_items n0 is2) (concat (map (m_items n0 is1) (m_item n0 i st))))"
    by (simp add: concat_map_flat o_def)
  finally show ?case by simp
qed

lemma m_items_lits:
  "m_items n0 (map lit lits) (s, caps)
     = (if startswith s lits then [(drop (length lits) s, caps)] else [])"
proof (induction lits arbitrary: s)
  case Nil
  show ?case by simp
next
  case (Cons c lits)
  show ?case
  proof (cases s)
    case Nil
    then show ?thesis by (simp add: lit_def)
  next
    case (Cons d ds)
    then show ?thesis using Cons.IH[of ds] by (simp add: lit_def)
  qed
qed

lemma m_star_shape:
  "\<exists>strict. m_star cl s = strict @ [s] \<and> (\<forall>x \<in> set strict. length x < length s)"
proof (induction s)
  case Nil
  show ?case by simp
next
  case (Cons c cs)
  then obtain strict where st: "m_star cl cs = strict @ [cs]" "\<forall>x \<in> set strict. length x < length cs"
    by blast
  show ?case
  proof (cases "class_match cl c")
    case True
    with st have "m_star cl (c # cs) = (strict @ [cs]) @ [c # cs]" by simp
    moreover from st(2) have "\<forall>x \<in> set (strict @ [cs]). length x < length (c # cs)" by auto
    ultimately show ?thesis by blast
  next
    case False
    show ?thesis
      by (rule exI[of _ "[]"]) (simp add: False)
  qed
qed

lemma m_star_length: "x \<in> set (m_star cl s) \<Longrightarrow> length x \<le> length s"
  by (induction s) (auto split: if_splits intro: le_SucI)

lemma concat_map_empty: "(\<And>x. x \<in> set xs \<Longrightarrow> f x = []) \<Longrightarrow> concat (map f xs) = []"
  by (induction xs) auto

lemma concat_map_unit: "(\<And>x. f x = [x]) \<Longrightarrow> concat (map f xs) = xs"
  by (induction xs) auto

lemma m_atoms_single: "m_atoms [a] s = m_atom a s"
  by (simp add: concat_map_unit)

lemma m_atoms_two: "m_atoms [a, b] s = concat (map (m_atom b) (m_atom a s))"
proof -
  have "m_atoms [b] = m_atom b"
    by (rule ext) (rule m_atoms_single)
  then show ?thesis by simp
qed

lemma m_items_single: "m_items n0 [i] st = m_item n0 i st"
  by (simp add: concat_map_unit)

text \<open>After a literal prefix, the rest of the pattern sees the rest of the path.\<close>

lemma re_match_after_lits:
  "re_match (map lit pre @ its) (pre @ s)
     = (case m_items (length (pre @ s)) its (s, []) of [] \<Rightarrow> None | (s', caps) # others \<Rightarrow> Some caps)"
  by (simp add: re_match_def m_items_append m_items_lits startswith_append)

lemma tail_needs_suffix:
  assumes "length s' < length suf"
  shows "m_items n0 (map lit suf @ [Eol]) (s', caps) = []"
proof -
  from assms have "\<not> startswith s' suf"
    using startswith_length[of s' suf] by auto
  then show ?thesis
    by (simp add: m_items_append m_items_lits)
qed

lemma tail_exact: "m_items n0 (map lit suf @ [Eol]) (suf, caps) = [([], caps)]"
  by (simp add: m_items_append m_items_lits startswith_self)

lemma str_body_short:
  assumes "s' \<in> set (m_atoms [Atom (NoneOf ''/'') One, Atom Dot Plus] (c # suf))"
  shows "length s' < length suf"
proof -
  from assms have in_plus: "s' \<in> set (m_atom (Atom Dot Plus) suf)"
    by (simp only: m_atoms_two) (auto split: if_splits)
  then obtain d ds where suf: "suf = d # ds" and "s' \<in> set (m_star Dot ds)"
    by (cases suf) (auto split: if_splits)
  then have "length s' \<le> length ds" by (auto dest: m_star_length)
  with suf show ?thesis by simp
qed

lemma str_group_no_single:
  "m_items n0 ([Group nm [Atom (NoneOf ''/'') One, Atom Dot Plus]] @ map lit suf @ [Eol])
     (c # suf, caps) = []"
proof -
  let ?body = "[Atom (NoneOf ''/'') One, Atom Dot Plus]"
  have "m_items n0 (map lit suf @ [Eol]) st = []"
    if "st \<in> set (m_items n0 [Group nm ?body] (c # suf, caps))" for st
  proof -
    from that have "fst st \<in> set (m_atoms ?body (c # suf))"
      unfolding m_items_single m_item.simps by (auto simp del: m_atoms.simps)
    then have "length (fst st) < length suf" by (rule str_body_short)
    then show ?thesis using tail_needs_suffix[of "fst st" suf n0 "snd st"] by simp
  qed
  then show ?thesis
    by (subst m_items_append) (rule concat_map_empty)
qed

lemma word_group_single:
  assumes "is_word c"
  shows "m_items n0 ([Group nm [Atom Word Plus]] @ map lit suf @ [Eol]) (c # suf, caps)
         = [([], caps @ [(nm, [c])])]"
proof -
  obtain strict where st: "m_star Word suf = strict @ [suf]" "\<forall>x \<in> set strict. length x < length suf"
    using m_star_shape by blast
  let ?cap = "\<lambda>s'. (s', caps @ [(nm, take (length (c # suf) - length s') (c # suf))])"
  have "m_atoms [Atom Word Plus] (c # suf) = strict @ [suf]"
    using assms st(1) by (simp only: m_atoms_single) simp
  then have "m_item n0 (Group nm [Atom Word Plus]) (c # suf, caps) = map ?cap strict @ [?cap suf]"
    by (simp del: m_atoms.simps)
  then have res: "m_items n0 [Group nm [Atom Word Plus]] (c # suf, caps) = map ?cap strict @ [?cap suf]"
    by (simp only: m_items_single)
  have "m_items n0 (map lit suf @ [Eol]) st = []" if "st \<in> set (map ?cap strict)" for st
  proof -
    from that st(2) have "length (fst st) < length suf" by auto
    then show ?thesis using tail_needs_suffix[of "fst st" suf n0 "snd st"] by simp
  qed
  then have "concat (map (m_items n0 (map lit suf @ [Eol])) (map ?cap strict)) = []"
    by (rule concat_map_empty)
  moreover have "m_items n0 (map lit suf @ [Eol]) (?cap suf) = [([], caps @ [(nm, [c])])]"
    by (simp add: tail_exact)
  ultimately show ?thesis
    by (subst m_items_append) (simp only: res map_append concat_append list.map concat.simps append_Nil append_Nil2)
qed

text \<open>Registration of a rule with one parameter.\<close>

lemma private_route_one_param:
  assumes "list_all plain_char pre" "list_all plain_char suf" "is_identifier nm"
    and "spec_parse sp = Inr (nm, ''(?P<'' @ nm @ ''>'' @ frag @ '')'', cst)"
    and "CHR ''}'' \<notin> set sp"
    and "\<And>rest. parse_atoms (frag @ '')'' @ rest) = Inr (body, rest)"
  shows "private_route r (pre @ ''{'' @ sp @ ''}'' @ suf) ms h
         = Inr (r\<lparr>routes := routes r @
                  [\<lparr>pattern = one_param_regex pre nm body suf, methods = ms,
                    casts = [nm \<mapsto> cst], handler = h\<rparr>]\<rparr>)"
proof -
  have rp: "rule_parse (pre @ ''{'' @ sp @ ''}'' @ suf)
            = Inr (pre @ (''(?P<'' @ nm @ ''>'' @ frag @ '')'') @ suf @ ''$'', [nm \<mapsto> cst])"
    by (rule rule_parse_one_param[OF assms(1,2,5,4)])
  have rc: "re_compile (pre @ (''(?P<'' @ nm @ ''>'' @ frag @ '')'') @ suf @ ''$'')
            = Inr (one_param_regex pre nm body suf)"
    unfolding one_param_regex_def by (rule parse_items_one_param[OF assms(1,2,3,6)])
  show ?thesis
    unfolding private_route_def rp by (simp only: sum.case prod.case rc)
qed

text \<open>A group of the default type consumes at least two characters.\<close>

lemma str_body_took_two:
  assumes "s' \<in> set (m_atoms str_body s)"
  shows "2 \<le> length (take (length s - length s') s)"
proof (cases s)
  case Nil
  with assms show ?thesis by (simp add: str_body_def)
next
  case (Cons c suf)
  with assms have "length s' < length suf"
    unfolding str_body_def by (auto dest: str_body_short simp del: m_atoms.simps)
  with Cons show ?thesis by simp
qed

lemma m_item_caps_long:
  assumes "st' \<in> set (m_item n0 i (s, caps))"
    and "\<And>body. i = Group nm body \<Longrightarrow> body = str_body"
    and "caps_long nm caps"
  shows "caps_long nm (snd st')"
proof (cases i)
  case (Single a)
  with assms(1,3) show ?thesis by auto
next
  case (Group n body)
  from assms(1) Group obtain s' where s': "s' \<in> set (m_atoms body s)"
    and st': "snd st' = caps @ [(n, take (length s - length s') s)]"
    by (auto simp del: m_atoms.simps)
  show ?thesis
  proof (cases "n = nm")
    case True
    with Group assms(2) have "body = str_body" by simp
    with s' have "s' \<in> set (m_atoms str_body s)" by simp
    then have "2 \<le> length (take (length s - length s') s)" by (rule str_body_took_two)
    with assms(3) st' show ?thesis by (auto simp: caps_long_def)
  next
    case False
    with assms(3) st' show ?thesis by (auto simp: caps_long_def)
  qed
next
  case Bol
  with assms(1,3) show ?thesis by (auto split: if_splits)
next
  case Eol
  with assms(1,3) show ?thesis by (auto split: if_splits)
qed

lemma m_items_caps_long:
  assumes "st' \<in> set (m_items n0 its st)"
    and "\<And>body. Group nm body \<in> set its \<Longrightarrow> body = str_body"
    and "caps_long nm (snd st)"
  shows "caps_long nm (snd st')"
  using assms
proof (induction its arbitrary: st)
  case Nil
  then show ?case by simp
next
  case (Cons i its)
  from Cons.prems(1) obtain mid where mid: "mid \<in> set (m_item n0 i st)"
    and st': "st' \<in> set (m_items n0 its mid)"
    by auto
  have "caps_long nm (snd mid)"
    using m_item_caps_long[of mid n0 i "fst st" "snd st" nm] mid Cons.prems(2,3) by simp
  with Cons.IH[OF st'] Cons.prems(2) show ?case by simp
qed

lemma re_match_caps_long:
  assumes "re_match rx p = Some gd" "\<And>body. Group nm body \<in> set rx \<Longrightarrow> body = str_body"
  shows "caps_long nm gd"
proof -
  from assms(1) obtain s' others where "m_items (length p) rx (p, []) = (s', gd) # others"
    by (auto simp: re_match_def split: list.splits)
  then have "(s', gd) \<in> set (m_items (length p) rx (p, []))" by simp
  from m_items_caps_long[OF this assms(2)] show ?thesis by (simp add: caps_long_def)
qed

lemma private_route_default_param:
  assumes "list_all plain_char pre" "list_all plain_char suf" "is_identifier nm"
  shows "private_route r (pre @ ''{'' @ nm @ ''}'' @ suf) ms h
           = Inr (r\<lparr>routes := routes r @
                    [\<lparr>pattern = one_param_regex pre nm str_body suf, methods = ms,
                      casts = [nm \<mapsto> Cast_str], handler = h\<rparr>]\<rparr>)"
proof -
  note idc = identifier_chars[OF assms(3)]
  show ?thesis
    unfolding str_body_def
    using private_route_one_param[OF assms, of nm "''[^/].+''" Cast_str
        "[Atom (NoneOf ''/'') One, Atom Dot Plus]" r ms h]
      spec_parse_default[OF idc(1)] idc(2) parse_atoms_str
    by simp
qed

lemma private_route_word_param:
  assumes "list_all plain_char pre" "list_all plain_char suf" "is_identifier nm"
  shows "private_route r (pre @ ''{'' @ nm @ '':word}'' @ suf) ms h
           = Inr (r\<lparr>routes := routes r @
                    [\<lparr>pattern = one_param_regex pre nm word_body suf, methods = ms,
                      casts = [nm \<mapsto> Cast_str], handler = h\<rparr>]\<rparr>)"
proof -
  note idc = identifier_chars[OF assms(3)]
  have "private_route r (pre @ ''{'' @ (nm @ '':word'') @ ''}'' @ suf) ms h
           = Inr (r\<lparr>routes := routes r @
                    [\<lparr>pattern = one_param_regex pre nm word_body suf, methods = ms,
                      casts = [nm \<mapsto> Cast_str], handler = h\<rparr>]\<rparr>)"
    unfolding word_body_def
    using private_route_one_param[OF assms, of "nm @ '':word''" "[bslash, CHR ''w'', CHR ''+'']"
        Cast_str "[Atom Word Plus]" r ms h]
      spec_parse_word[OF idc(1)] idc(2) parse_atoms_word
    by simp
  then show ?thesis by simp
qed

lemma parse_atoms_int:
  "parse_atoms ((''[+-]?'' @ [bslash, CHR ''d'', CHR ''+'']) @ '')'' @ rest)
     = Inr ([Atom (OneOf ''+-'') Opt, Atom Digit Plus], rest)"
  by (simp add: parse_atoms_step parse_atoms_close parse_atom_def parse_quant_def
        is_quant_char_def bslash_def)

lemma plain_items: "list_all plain_char ''/items/''" "list_all plain_char []"
  by (simp_all add: plain_char_def bslash_def)

lemma private_route_items_int:
  "private_route r ''/items/{id:int}'' ms h
     = Inr (r\<lparr>routes := routes r @
              [\<lparr>pattern = one_param_regex ''/items/'' ''id'' int_body [], methods = ms,
                casts = [''id'' \<mapsto> Cast_int], handler = h\<rparr>]\<rparr>)"
proof -
  have i: "is_identifier ''id''"
    by (simp add: is_identifier_def is_id_start_def is_id_continue_def is_digit_def)
  have sp: "spec_parse ''id:int''
            = Inr (''id'', ''(?P<'' @ ''id'' @ ''>'' @ (''[+-]?'' @ [bslash, CHR ''d'', CHR ''+'']) @ '')'', Cast_int)"
    by (simp add: spec_parse_def PATTERNS_def CASTS_def)
  from private_route_one_param[OF plain_items i sp _ parse_atoms_int, of r ms h]
  show ?thesis
    by (simp add: int_body_def)
qed

lemma re_match_items_42:
  "re_match (one_param_regex ''/items/'' ''id'' int_body []) ''/items/42'' = Some [(''id'', ''42'')]"
  by (simp add: one_param_regex_def lit_def int_body_def re_match_def is_digit_def)

lemma re_match_items_slash:
  "re_match (one_param_regex ''/items/'' ''name'' str_body []) ''/items/ab/cd''
     = Some [(''name'', ''ab/cd'')]"
  by (simp add: one_param_regex_def lit_def str_body_def re_match_def newline_def)

text \<open>The arguments a successful match assigns.\<close>

lemma cast_groups_dom: "cast_groups cts gd a0 = Inr a \<Longrightarrow> dom a = dom a0 \<union> fst ` set gd"
proof (induction gd arbitrary: a0)
  case Nil
  then show ?case by simp
next
  case (Cons kv gd)
  obtain k v where kv: "kv = (k, v)" by (cases kv)
  with Cons.prems obtain c x where "cts k = Some c" "apply_cast c v = Inr x"
    and rest: "cast_groups cts gd (a0(k \<mapsto> x)) = Inr a"
    by (auto split: option.splits sum.splits)
  from Cons.IH[OF rest] kv show ?case by auto
qed

lemma cast_groups_vals:
  "cast_groups cts gd a0 = Inr a \<Longrightarrow> a k = Some x \<Longrightarrow>
   a0 k = Some x \<or> (\<exists>v c. (k, v) \<in> set gd \<and> cts k = Some c \<and> apply_cast c v = Inr x)"
proof (induction gd arbitrary: a0)
  case Nil
  then show ?case by simp
next
  case (Cons kv gd)
  obtain k' v' where kv: "kv = (k', v')" by (cases kv)
  with Cons.prems(1) obtain c' x' where c': "cts k' = Some c'" "apply_cast c' v' = Inr x'"
    and rest: "cast_groups cts gd (a0(k' \<mapsto> x')) = Inr a"
    by (auto split: option.splits sum.splits)
  from Cons.IH[OF rest Cons.prems(2)]
  consider "(a0(k' \<mapsto> x')) k = Some x"
    | "\<exists>v c. (k, v) \<in> set gd \<and> cts k = Some c \<and> apply_cast c v = Inr x"
    by blast
  then show ?case
  proof cases
    case 1
    show ?thesis
    proof (cases "k = k'")
      case True
      with 1 have "x = x'" by simp
      with True c' kv show ?thesis by auto
    next
      case False
      with 1 show ?thesis by simp
    qed
  next
    case 2
    with kv show ?thesis by auto
  qed
qed

lemma match_routes_hit:
  "match_routes r rts req = Inr (Some h, req') \<Longrightarrow>
   \<exists>rt gd a. rt \<in> set rts \<and> req_method req \<in> set (methods rt)
     \<and> re_match (pattern rt) (replace_first (path req) (prefix r) []) = Some gd
     \<and> cast_groups (casts rt) gd Map.empty = Inr a
     \<and> h = apply_filter (filters r) (handler rt) \<and> req' = req\<lparr>args := Some a\<rparr>"
proof (induction rts)
  case Nil
  then show ?case by simp
next
  case (Cons rt rts)
  show ?case
  proof (cases "route_hit r req rt")
    case True
    then obtain gd where gd: "req_method req \<in> set (methods rt)"
      "re_match (pattern rt) (replace_first (path req) (prefix r) []) = Some gd"
      by (auto simp: route_hit_def)
    with Cons.prems obtain a where "cast_groups (casts rt) gd Map.empty = Inr a"
      "h = apply_filter (filters r) (handler rt)" "req' = req\<lparr>args := Some a\<rparr>"
      by (auto split: sum.splits)
    with gd show ?thesis by auto
  next
    case False
    with Cons.prems have "match_routes r rts req = Inr (Some h, req')"
      by (auto simp: route_hit_def split: if_splits option.splits)
    from Cons.IH[OF this] show ?thesis by auto
  qed
qed

lemma Router_match_hit:
  assumes "Router_match r req = Inr (Some h, req')"
  shows "\<exists>rt gd a. rt \<in> set (routes r) \<and> req_method req \<in> set (methods rt)
     \<and> re_match (pattern rt) (replace_first (path req) (prefix r) []) = Some gd
     \<and> cast_groups (casts rt) gd Map.empty = Inr a
     \<and> h = apply_filter (filters r) (handler rt) \<and> req' = req\<lparr>args := Some a\<rparr>"
proof -
  from assms have "match_routes r (routes r) req = Inr (Some h, req')"
    by (auto simp: Router_match_def split: sum.splits if_splits)
  then show ?thesis by (rule match_routes_hit)
qed

lemma Router_match_items_42:
  assumes "''GET'' \<in> set ms"
  shows "Router_match
           \<lparr>routes = [\<lparr>pattern = one_param_regex ''/items/'' ''id'' int_body [], methods = ms,
                        casts = [''id'' \<mapsto> Cast_int], handler = h0\<rparr>],
            domain = None, prefix = [], filters = fls\<rparr>
           \<lparr>req_method = ''GET'', path = ''/items/42'', host = hst, args = a0\<rparr>
         = Inr (Some (apply_filter fls h0),
                \<lparr>req_method = ''GET'', path = ''/items/42'', host = hst,
                 args = Some [''id'' \<mapsto> VInt 42]\<rparr>)"
proof -
  have c: "py_int ''42'' = Inr (VInt 42)"
    by (simp add: py_int_def is_digit_def digits_val_def digit_val_def)
  show ?thesis
    using assms
    by (simp add: Router_match_def domain_match_def prefix_match_def re_match_items_42 c)
qed

section \<open>The default type and the type word\<close>

text \<open>
  Claim C1.  Take a rule made of plain characters around one parameter with an
  identifier as its name.  Written \<^verbatim>\<open>{name}\<close>, the rule compiles to the literal
  items around a group with the body of \<^verbatim>\<open>[^/].+\<close>, and a path that puts a single
  character \<open>c\<close> in the place of the parameter does not match.  Written
  \<^verbatim>\<open>{name:word}\<close>, the rule compiles to the same with the body of \<^verbatim>\<open>\w+\<close>, and
  the same path matches with \<open>c\<close> captured when \<open>c\<close> is a word character.  More
  generally, whatever a compiled pattern whose groups named \<open>nm\<close> are of the default
  type matches, the text captured for \<open>nm\<close> has at least two characters.
\<close>

theorem str_param_needs_two_chars:
  assumes "list_all plain_char pre" "list_all plain_char suf" "is_identifier nm"
  shows "private_route r (pre @ ''{'' @ nm @ ''}'' @ suf) ms h
           = Inr (r\<lparr>routes := routes r @
                    [\<lparr>pattern = one_param_regex pre nm str_body suf, methods = ms,
                      casts = [nm \<mapsto> Cast_str], handler = h\<rparr>]\<rparr>)
         \<and> re_match (one_param_regex pre nm str_body suf) (pre @ [c] @ suf) = None
         \<and> private_route r (pre @ ''{'' @ nm @ '':word}'' @ suf) ms h
           = Inr (r\<lparr>routes := routes r @
                    [\<lparr>pattern = one_param_regex pre nm word_body suf, methods = ms,
                      casts = [nm \<mapsto> Cast_str], handler = h\<rparr>]\<rparr>)
         \<and> (is_word c \<longrightarrow>
              re_match (one_param_regex pre nm word_body suf) (pre @ [c] @ suf) = Some [(nm, [c])])
         \<and> ((\<forall>body. Group nm body \<in> set rx \<longrightarrow> body = str_body) \<and> re_match rx p = Some gd
              \<longrightarrow> caps_long nm gd)"
proof -
  have "re_match (map lit pre @ ([Group nm [Atom (NoneOf ''/'') One, Atom Dot Plus]] @ map lit suf @ [Eol]))
          (pre @ (c # suf)) = None"
    by (simp only: re_match_after_lits str_group_no_single list.case)
  then have m1: "re_match (one_param_regex pre nm str_body suf) (pre @ [c] @ suf) = None"
    by (simp add: one_param_regex_def str_body_def)
  have m2: "re_match (one_param_regex pre nm word_body suf) (pre @ [c] @ suf) = Some [(nm, [c])]"
    if "is_word c"
  proof -
    have "re_match (map lit pre @ ([Group nm [Atom Word Plus]] @ map lit suf @ [Eol]))
            (pre @ (c # suf)) = Some [(nm, [c])]"
      by (simp only: re_match_after_lits word_group_single[OF that] list.case prod.case append_Nil)
    then show ?thesis
      by (simp add: one_param_regex_def word_body_def)
  qed
  have g: "caps_long nm gd"
    if "\<forall>body. Group nm body \<in> set rx \<longrightarrow> body = str_body" "re_match rx p = Some gd"
    using re_match_caps_long[OF that(2)] that(1) by blast
  from private_route_default_param[OF assms, of r ms h] m1
    private_route_word_param[OF assms, of r ms h] m2 g
  show ?thesis by blast
qed

theorem str_param_needs_two_chars_witness:
  "private_route empty_router ''/items/{name}'' [''GET''] (say ''x'')
     = Inr (empty_router\<lparr>routes :=
              [\<lparr>pattern = one_param_regex ''/items/'' ''name'' str_body [], methods = [''GET''],
                casts = [''name'' \<mapsto> Cast_str], handler = say ''x''\<rparr>]\<rparr>)
   \<and> re_match (one_param_regex ''/items/'' ''name'' str_body []) ''/items/a'' = None
   \<and> private_route empty_router ''/items/{name:word}'' [''GET''] (say ''x'')
     = Inr (empty_router\<lparr>routes :=
              [\<lparr>pattern = one_param_regex ''/items/'' ''name'' word_body [], methods = [''GET''],
                casts = [''name'' \<mapsto> Cast_str], handler = say ''x''\<rparr>]\<rparr>)
   \<and> re_match (one_param_regex ''/items/'' ''name'' word_body []) ''/items/a'' = Some [(''name'', ''a'')]
   \<and> caps_long ''name'' [(''name'', ''socks'')]"
proof -
  have i: "is_identifier ''name''"
    by (simp add: is_identifier_def is_id_start_def is_id_continue_def is_digit_def)
  have w: "is_word CHR ''a''"
    by (simp add: is_word_def is_ascii_alnum_def)
  have g: "\<forall>body. Group ''name'' body \<in> set (one_param_regex ''/items/'' ''name'' str_body [])
             \<longrightarrow> body = str_body"
    by (auto simp: one_param_regex_def lit_def)
  have m: "re_match (one_param_regex ''/items/'' ''name'' str_body []) ''/items/socks''
           = Some [(''name'', ''socks'')]"
    by (simp add: one_param_regex_def lit_def str_body_def re_match_def newline_def)
  from str_param_needs_two_chars[OF plain_items i, of empty_router "[''GET'']" "say ''x''" "CHR ''a''"
      "one_param_regex ''/items/'' ''name'' str_body []" "''/items/socks''" "[(''name'', ''socks'')]"]
    w g m
  show ?thesis
    by (simp add: empty_router_def)
qed

section \<open>Cast arguments\<close>

text \<open>
  Claim C7.  A router with no domain and an empty prefix on which the rule
  \<^verbatim>\<open>/items/{id:int}\<close> is registered for a method set that holds \<^verbatim>\<open>GET\<close> matches a
  \<^verbatim>\<open>GET\<close> request for \<^verbatim>\<open>/items/42\<close>: the request's arguments become the map with
  the single entry \<open>id\<close>, the integer 42, whatever they were before.  In general,
  when a match returns a handler, it is the wrapped handler of a route whose method
  set and pattern accept the request, and the request's arguments are replaced by a
  map whose keys are exactly the names of the captured groups, each value the cast,
  by the route's cast table, of a text captured under that name.
\<close>

theorem match_casts_captures:
  "(''GET'' \<in> set ms \<longrightarrow>
      (\<exists>r1. private_route \<lparr>routes = [], domain = None, prefix = [], filters = fls\<rparr>
               ''/items/{id:int}'' ms h0 = Inr r1
            \<and> Router_match r1 \<lparr>req_method = ''GET'', path = ''/items/42'', host = hst, args = a0\<rparr>
                = Inr (Some (apply_filter fls h0),
                       \<lparr>req_method = ''GET'', path = ''/items/42'', host = hst,
                        args = Some [''id'' \<mapsto> VInt 42]\<rparr>)))
   \<and> (Router_match r req = Inr (Some h, req') \<longrightarrow>
      (\<exists>rt gd a. rt \<in> set (routes r) \<and> req_method req \<in> set (methods rt)
         \<and> re_match (pattern rt) (replace_first (path req) (prefix r) []) = Some gd
         \<and> h = apply_filter (filters r) (handler rt)
         \<and> req' = req\<lparr>args := Some a\<rparr>
         \<and> dom a = fst ` set gd
         \<and> (\<forall>k x. a k = Some x \<longrightarrow>
               (\<exists>v c. (k, v) \<in> set gd \<and> casts rt k = Some c \<and> apply_cast c v = Inr x))))"
proof -
  have concrete: "\<exists>r1. private_route \<lparr>routes = [], domain = None, prefix = [], filters = fls\<rparr>
               ''/items/{id:int}'' ms h0 = Inr r1
            \<and> Router_match r1 \<lparr>req_method = ''GET'', path = ''/items/42'', host = hst, args = a0\<rparr>
                = Inr (Some (apply_filter fls h0),
                       \<lparr>req_method = ''GET'', path = ''/items/42'', host = hst,
                        args = Some [''id'' \<mapsto> VInt 42]\<rparr>)"
    if "''GET'' \<in> set ms"
    using Router_match_items_42[OF that, of h0 fls hst a0]
    by (simp add: private_route_items_int)
  have general: "\<exists>rt gd a. rt \<in> set (routes r) \<and> req_method req \<in> set (methods rt)
         \<and> re_match (pattern rt) (replace_first (path req) (prefix r) []) = Some gd
         \<and> h = apply_filter (filters r) (handler rt)
         \<and> req' = req\<lparr>args := Some a\<rparr>
         \<and> dom a = fst ` set gd
         \<and> (\<forall>k x. a k = Some x \<longrightarrow>
               (\<exists>v c. (k, v) \<in> set gd \<and> casts rt k = Some c \<and> apply_cast c v = Inr x))"
    if "Router_match r req = Inr (Some h, req')"
  proof -
    from Router_match_hit[OF that] obtain rt gd a where
      h: "rt \<in> set (routes r)" "req_method req \<in> set (methods rt)"
         "re_match (pattern rt) (replace_first (path req) (prefix r) []) = Some gd"
         "cast_groups (casts rt) gd Map.empty = Inr a"
         "h = apply_filter (filters r) (handler rt)" "req' = req\<lparr>args := Some a\<rparr>"
      by blast
    have "dom a = fst ` set gd"
      using cast_groups_dom[OF h(4)] by simp
    moreover have "\<forall>k x. a k = Some x \<longrightarrow>
               (\<exists>v c. (k, v) \<in> set gd \<and> casts rt k = Some c \<and> apply_cast c v = Inr x)"
      using cast_groups_vals[OF h(4)] by auto
    ultimately show ?thesis using h by blast
  qed
  from concrete general show ?thesis by blast
qed

theorem match_casts_captures_witness:
  "(case private_route empty_router ''/items/{id:int}'' [''GET''] (say ''item'') of
      Inl e \<Rightarrow> False
    | Inr r1 \<Rightarrow>
       (case Router_match r1 ((get_request ''/items/42'')\<lparr>args := Some [''old'' \<mapsto> VStr ''x'']\<rparr>) of
          Inr (Some h, q) \<Rightarrow>
            args q = Some [''id'' \<mapsto> VInt 42]
            \<and> (\<exists>rt \<in> set (routes r1). h = apply_filter (filters r1) (handler rt))
        | _ \<Rightarrow> False))"
proof -
  let ?q = "(get_request ''/items/42'')\<lparr>args := Some [''old'' \<mapsto> VStr ''x'']\<rparr>"
  from match_casts_captures[of "[''GET'']" "[]" "say ''item''" "''example.com''"
      "Some [''old'' \<mapsto> VStr ''x'']", THEN conjunct1]
  obtain r1 where r1: "private_route empty_router ''/items/{id:int}'' [''GET''] (say ''item'') = Inr r1"
    and m: "Router_match r1 ?q
            = Inr (Some (apply_filter [] (say ''item'')), ?q\<lparr>args := Some [''id'' \<mapsto> VInt 42]\<rparr>)"
    by (auto simp: empty_router_def get_request_def)
  from match_casts_captures[of "[]" "[]" "say ''item''" "[]" None r1 ?q
      "apply_filter [] (say ''item'')" "?q\<lparr>args := Some [''id'' \<mapsto> VInt 42]\<rparr>",
      THEN conjunct2] m
  have "\<exists>rt \<in> set (routes r1). apply_filter [] (say ''item'') = apply_filter (filters r1) (handler rt)"
    by blast
  with r1 m show ?thesis by simp
qed

section \<open>A default-type parameter across segments\<close>

text \<open>
  Claim C6 does not hold of the code: the pattern of the default type,
  \<^verbatim>\<open>[^/].+\<close>, keeps the slash out of the first character only.  The rule
  \<^verbatim>\<open>/items/{name}\<close> matches the path \<^verbatim>\<open>/items/ab/cd\<close>, and the argument \<open>name\<close> is
  the text \<^verbatim>\<open>ab/cd\<close>, which spans a path separator.
\<close>

theorem str_param_spans_separator:
  "(case private_route empty_router ''/items/{name}'' [''GET''] (say ''item'') of
      Inl e \<Rightarrow> False
    | Inr r1 \<Rightarrow>
       (case Router_match r1 (get_request ''/items/ab/cd'') of
          Inr (Some h, q) \<Rightarrow> args q = Some [''name'' \<mapsto> VStr ''ab/cd'']
        | _ \<Rightarrow> False))
   \<and> CHR ''/'' \<in> set ''ab/cd''"
proof -
  have i: "is_identifier ''name''"
    by (simp add: is_identifier_def is_id_start_def is_id_continue_def is_digit_def)
  have r1: "private_route empty_router ''/items/{name}'' [''GET''] (say ''item'')
        = Inr (empty_router\<lparr>routes :=
              [\<lparr>pattern = one_param_regex ''/items/'' ''name'' str_body [], methods = [''GET''],
                casts = [''name'' \<mapsto> Cast_str], handler = say ''item''\<rparr>]\<rparr>)"
    using private_route_default_param[OF plain_items i, of empty_router "[''GET'']" "say ''item''"]
    by (simp add: empty_router_def)
  show ?thesis
    unfolding r1
    by (simp add: empty_router_def get_request_def Router_match_def domain_match_def
          prefix_match_def re_match_items_slash)
qed

end
